theory Spec2Isabelle
  imports Main
begin

section \<open>Mapped strings of quarto-cli: \<open>src/core/lib/mapped-text.ts\<close> and \<open>text.ts\<close>\<close>

text \<open>
  Offsets are JavaScript numbers used as integers: they are modelled as \<open>int\<close>.
  A JavaScript string is a sequence of code units: it is modelled as \<open>string\<close>, with
  \<open>length\<close> for \<open>.length\<close>. A thrown exception is the \<open>Inl\<close> of a sum,
  the result \<open>undefined\<close> of a map ("unmapped") is \<open>None\<close>.
\<close>

subsection \<open>Errors and array reads\<close>

datatype error =
    TypeError          \<comment> \<open>a property read on \<open>undefined\<close>\<close>
  | Error string       \<comment> \<open>\<open>throw new Error(message)\<close>\<close>

text \<open>\<open>xs[i]\<close> in JavaScript: \<open>undefined\<close> (here \<open>None\<close>) outside the array.\<close>

definition index_js :: "'a list \<Rightarrow> int \<Rightarrow> 'a option" where
  "index_js xs i = (if 0 \<le> i \<and> i < int (length xs) then Some (xs ! nat i) else None)"

subsection \<open>Greatest lower bound search\<close>

text \<open>
  Modelled from the spec: \<open>glb\<close> of \<open>binary-search.ts\<close>, which the sources import and
  which is not among them. The spec (4.1): given a sequence of items, non-decreasing by a
  key, and a query key, return the largest index \<open>i\<close> such that \<open>key(items[i]) \<le> query\<close>,
  or the sentinel "none" if the query is smaller than every key. The callers test the
  sentinel with \<open>ix < 0\<close>: it is \<open>-1\<close>. The scan below keeps the last index whose key
  is at most the query.
\<close>

primrec glb_from :: "('a \<Rightarrow> int) \<Rightarrow> int \<Rightarrow> 'a list \<Rightarrow> int \<Rightarrow> int \<Rightarrow> int" where
  "glb_from key q [] i best = best"
| "glb_from key q (x # xs) i best = glb_from key q xs (i + 1) (if key x \<le> q then i else best)"

definition glb :: "('a \<Rightarrow> int) \<Rightarrow> 'a list \<Rightarrow> int \<Rightarrow> int" where
  "glb key items query = glb_from key query items 0 (- 1)"

subsection \<open>\<open>text.ts\<close>: the line-offset index\<close>

text \<open>
  \<open>text.matchAll(/\r?\n/g)\<close>, each match \<open>m\<close> giving \<open>m[0].length + m.index\<close>: the
  matches are found from left to right; at a carriage return followed by a line feed the
  match has two characters, at a line feed alone it has one, and a carriage return alone
  matches nothing. The second argument is the index of the first character of the text
  still to scan.
\<close>

fun matchAll_newlines :: "string \<Rightarrow> int \<Rightarrow> int list" where
  "matchAll_newlines [] i = []"
| "matchAll_newlines [c] i = (if c = CHR 0x0A then [1 + i] else [])"
| "matchAll_newlines (c # d # cs) i =
     (if c = CHR 0x0D \<and> d = CHR 0x0A then (2 + i) # matchAll_newlines cs (i + 2)
      else if c = CHR 0x0A then (1 + i) # matchAll_newlines (d # cs) (i + 1)
      else matchAll_newlines (d # cs) (i + 1))"

definition lineOffsets :: "string \<Rightarrow> int list" where
  "lineOffsets text = [0] @ matchAll_newlines text 0 @ [int (length text)]"

text \<open>A JavaScript number that may be \<open>NaN\<close> (the result of \<open>offset - undefined\<close>).\<close>

datatype number = Num int | NaN

record LineColumn =
  line :: int
  column :: number

definition lineNumbers :: "string \<Rightarrow> int \<Rightarrow> LineColumn" where
  "lineNumbers text offset =
     (let startIndex = glb id (lineOffsets text) offset
      in \<lparr> line = startIndex,
           column = (case index_js (lineOffsets text) startIndex of
                       None \<Rightarrow> NaN
                     | Some lineStart \<Rightarrow> Num (offset - lineStart)) \<rparr>)"

subsection \<open>\<open>mapped-text.ts\<close>: the data\<close>

record Range =
  start :: int
  end_r :: int

datatype StringChunk = Lit string | Rng Range

record MappedString =
  value_ms :: string
  originalString :: string
  map_ms :: "int \<Rightarrow> error + int option"
  mapClosest :: "int \<Rightarrow> error + int option"

record OffsetInfo =
  fromSource :: bool
  length_oi :: int
  offset :: int
  range_oi :: "Range option"

datatype source = Raw string | Mapped MappedString

text \<open>
  \<open>String.prototype.substring(start, end)\<close>: both arguments are clamped to
  \<open>[0, length]\<close>, and swapped when the first is the larger.
\<close>

definition substring :: "string \<Rightarrow> int \<Rightarrow> int \<Rightarrow> string" where
  "substring s b e =
     (let len = int (length s);
          finalStart = min (max b 0) len;
          finalEnd = min (max e 0) len;
          from = min finalStart finalEnd;
          to = max finalStart finalEnd
      in take (nat (to - from)) (drop (nat from) s))"

subsection \<open>\<open>mappedString\<close>, base case\<close>

text \<open>
  The callback of \<open>pieces.map\<close>, run over the pieces in order: it appends to
  \<open>offsetInfo\<close>, advances \<open>offset\<close> and yields the piece's text. The result is the final
  \<open>offsetInfo\<close> and \<open>resultList\<close>.
\<close>

fun each_piece ::
  "string \<Rightarrow> StringChunk list \<Rightarrow> OffsetInfo list \<Rightarrow> int \<Rightarrow> string list
     \<Rightarrow> OffsetInfo list \<times> string list" where
  "each_piece source [] offsetInfo offs resultList = (offsetInfo, resultList)"
| "each_piece source (Lit piece # pieces) offsetInfo offs resultList =
     each_piece source pieces
       (offsetInfo @ [\<lparr> fromSource = False, length_oi = int (length piece),
                        offset = offs, range_oi = None \<rparr>])
       (offs + int (length piece))
       (resultList @ [piece])"
| "each_piece source (Rng piece # pieces) offsetInfo offs resultList =
     (let resultPiece = substring source (start piece) (end_r piece)
      in each_piece source pieces
           (offsetInfo @ [\<lparr> fromSource = True, length_oi = int (length resultPiece),
                            offset = offs,
                            range_oi = Some \<lparr> start = start piece, end_r = end_r piece \<rparr> \<rparr>])
           (offs + int (length resultPiece))
           (resultList @ [resultPiece]))"

definition map_base :: "OffsetInfo list \<Rightarrow> int \<Rightarrow> error + int option" where
  "map_base offsetInfo targetOffset =
     (let ix = glb offset offsetInfo targetOffset
      in if ix < 0 then Inr None
         else case index_js offsetInfo ix of
                None \<Rightarrow> Inl TypeError
              | Some info \<Rightarrow>
                  if \<not> fromSource info then Inr None
                  else let localOffset = targetOffset - offset info
                       in if localOffset \<ge> length_oi info then Inr None
                          else case range_oi info of
                                 None \<Rightarrow> Inl TypeError
                               | Some r \<Rightarrow> Inr (Some (start r + localOffset)))"

text \<open>
  The \<open>while (ix >= 0)\<close> loop of \<open>mapClosest\<close> and the code after it. The variable
  \<open>smallestSourceInfo\<close> is assigned only on a path that returns, so an iteration that
  continues passes it on unchanged.
\<close>

function mapClosest_loop ::
  "OffsetInfo list \<Rightarrow> int \<Rightarrow> int \<Rightarrow> int \<Rightarrow> OffsetInfo option \<Rightarrow> error + int option" where
  "mapClosest_loop offsetInfo targetOffset firstIx ix smallestSourceInfo =
     (if ix \<ge> 0 then
        (case index_js offsetInfo ix of
           None \<Rightarrow> Inl TypeError
         | Some info \<Rightarrow>
             if \<not> fromSource info
             then mapClosest_loop offsetInfo targetOffset firstIx (ix - 1) smallestSourceInfo
             else if ix = firstIx \<and> targetOffset - offset info < length_oi info
             then (case range_oi info of
                     None \<Rightarrow> Inl TypeError
                   | Some r \<Rightarrow> Inr (Some (start r + (targetOffset - offset info))))
             else (case range_oi info of
                     None \<Rightarrow> Inl TypeError
                   | Some r \<Rightarrow> Inr (Some (end_r r - 1))))
      else (case smallestSourceInfo of
              None \<Rightarrow> Inr None
            | Some info \<Rightarrow>
                (case range_oi info of
                   None \<Rightarrow> Inl TypeError
                 | Some r \<Rightarrow> Inr (Some (start r)))))"
  by pat_completeness auto
termination
  by (relation "measure (\<lambda>(offsetInfo, targetOffset, firstIx, ix, s). nat (ix + 1))") auto

definition mapClosest_base :: "OffsetInfo list \<Rightarrow> int \<Rightarrow> error + int option" where
  "mapClosest_base offsetInfo targetOffset =
     (if length offsetInfo = 0 \<or> targetOffset < 0 then Inr None
      else let firstIx = glb offset offsetInfo targetOffset
           in mapClosest_loop offsetInfo targetOffset firstIx firstIx None)"

subsection \<open>\<open>mappedString\<close>\<close>

function mappedString :: "source \<Rightarrow> StringChunk list \<Rightarrow> MappedString" where
  "mappedString (Raw source) pieces =
     (let (offsetInfo, resultList) = each_piece source pieces [] 0 []
      in \<lparr> value_ms = concat resultList,
           originalString = source,
           map_ms = map_base offsetInfo,
           mapClosest = mapClosest_base offsetInfo \<rparr>)"
| "mappedString (Mapped source) pieces =
     (let next = mappedString (Raw (value_ms source)) pieces
      in \<lparr> value_ms = value_ms next,
           originalString = originalString source,
           map_ms = (\<lambda>offs. case map_ms next offs of
                               Inl e \<Rightarrow> Inl e
                             | Inr None \<Rightarrow> Inr None
                             | Inr (Some v) \<Rightarrow> map_ms source v),
           mapClosest = (\<lambda>offs. case mapClosest next offs of
                                   Inl e \<Rightarrow> Inl e
                                 | Inr None \<Rightarrow> Inr None
                                 | Inr (Some v) \<Rightarrow> mapClosest source v) \<rparr>)"
  by pat_completeness auto
termination
  by (relation "measure (\<lambda>(s, pieces). case s of Raw _ \<Rightarrow> 0 | Mapped _ \<Rightarrow> 1)") auto

subsection \<open>\<open>asMappedString\<close>, \<open>mappedConcat\<close>, \<open>mappedLineNumbers\<close>\<close>

definition asMappedString :: "string \<Rightarrow> MappedString" where
  "asMappedString str =
     \<lparr> value_ms = str,
       originalString = str,
       map_ms = (\<lambda>x. Inr (Some x)),
       mapClosest = (\<lambda>x. Inr (Some x)) \<rparr>"

text \<open>The \<open>for (const s of strings)\<close> loop: the running sum of the lengths.\<close>

fun concat_offsets :: "MappedString list \<Rightarrow> int \<Rightarrow> int list" where
  "concat_offsets [] currentOffset = []"
| "concat_offsets (s # strings) currentOffset =
     (currentOffset + int (length (value_ms s)))
       # concat_offsets strings (currentOffset + int (length (value_ms s)))"

text \<open>
  In \<open>strings[ix].map(offset - offsets[ix])\<close> the read of \<open>.map\<close> on an undefined
  \<open>strings[ix]\<close> throws before the argument is computed; \<open>offsets\<close> has one entry for
  each element of \<open>strings\<close>, so \<open>offsets[ix]\<close> is defined where \<open>strings[ix]\<close> is.
\<close>

definition mappedConcat :: "MappedString list \<Rightarrow> error + MappedString" where
  "mappedConcat strings =
     (if length strings = 0 then Inl (Error ''strings must be non-empty'')
      else let offsets = concat_offsets strings 0;
               val = concat (map value_ms strings)
           in Inr \<lparr> value_ms = val,
                    originalString = originalString (strings ! 0),
                    map_ms = (\<lambda>offs.
                      if offs < 0 \<or> offs \<ge> int (length val) then Inr None
                      else let ix = glb id offsets offs
                           in case index_js strings ix of
                                None \<Rightarrow> Inl TypeError
                              | Some s \<Rightarrow> map_ms s (offs - offsets ! nat ix)),
                    mapClosest = (\<lambda>offs.
                      if offs < 0 \<or> offs \<ge> int (length val) then Inr None
                      else let ix = glb id offsets offs
                           in case index_js strings ix of
                                None \<Rightarrow> Inl TypeError
                              | Some s \<Rightarrow> mapClosest s (offs - offsets ! nat ix)) \<rparr>)"

definition mappedLineNumbers :: "MappedString \<Rightarrow> int \<Rightarrow> error + LineColumn" where
  "mappedLineNumbers text offs =
     (case mapClosest text offs of
        Inl e \<Rightarrow> Inl e
      | Inr None \<Rightarrow> Inl (Error ''Internal Error: bad offset in mappedLineNumbers'')
      | Inr (Some n) \<Rightarrow> Inr (lineNumbers (originalString text) n))"

subsection \<open>Notions used to state the properties\<close>

text \<open>The text one piece contributes to \<open>value\<close>.\<close>

definition resolve :: "string \<Rightarrow> StringChunk \<Rightarrow> string" where
  "resolve source piece =
     (case piece of Lit p \<Rightarrow> p | Rng r \<Rightarrow> substring source (start r) (end_r r))"

text \<open>The segment table \<open>offsetInfo\<close> that the base case of \<open>mappedString\<close> builds.\<close>

definition segments :: "string \<Rightarrow> StringChunk list \<Rightarrow> OffsetInfo list" where
  "segments source pieces = fst (each_piece source pieces [] 0 [])"

text \<open>The same table by recursion on the pieces, each segment written out.\<close>

primrec segments_from :: "string \<Rightarrow> StringChunk list \<Rightarrow> int \<Rightarrow> OffsetInfo list" where
  "segments_from source [] offs = []"
| "segments_from source (p # ps) offs =
     \<lparr> fromSource = (case p of Lit _ \<Rightarrow> False | Rng _ \<Rightarrow> True),
       length_oi = int (length (resolve source p)),
       offset = offs,
       range_oi = (case p of Lit _ \<Rightarrow> None | Rng r \<Rightarrow> Some r) \<rparr>
     # segments_from source ps (offs + int (length (resolve source p)))"

text \<open>
  Segment \<open>i\<close> covers the offset \<open>t\<close>: it is the last segment that starts at or
  before \<open>t\<close>.
\<close>

definition covering :: "OffsetInfo list \<Rightarrow> int \<Rightarrow> nat \<Rightarrow> bool" where
  "covering segs t i =
     (i < length segs \<and> offset (segs ! i) \<le> t \<and> list_all (\<lambda>j. t < offset (segs ! j)) [Suc i ..< length segs])"

text \<open>
  The body that the \<open>map\<close> and \<open>mapClosest\<close> of a \<open>mappedConcat\<close> result share; \<open>method\<close>
  is the one or the other.
\<close>

definition concat_route ::
  "(MappedString \<Rightarrow> int \<Rightarrow> error + int option) \<Rightarrow> MappedString list \<Rightarrow> int list \<Rightarrow> string
     \<Rightarrow> int \<Rightarrow> error + int option" where
  "concat_route method strings offsets val offs =
     (if offs < 0 \<or> offs \<ge> int (length val) then Inr None
      else let ix = glb id offsets offs
           in case index_js strings ix of
                None \<Rightarrow> Inl TypeError
              | Some s \<Rightarrow> method s (offs - offsets ! nat ix))"

text \<open>The mapped strings that the three combinators produce.\<close>

inductive produced :: "MappedString \<Rightarrow> bool" where
  produced_as: "produced (asMappedString str)"
| produced_raw: "produced (mappedString (Raw s) pieces)"
| produced_mapped: "produced M \<Longrightarrow> produced (mappedString (Mapped M) pieces)"
| produced_concat:
    "(\<forall>M \<in> set strings. produced M) \<Longrightarrow> mappedConcat strings = Inr C \<Longrightarrow> produced C"

text \<open>The inputs of the scenarios.\<close>

definition scenario_abcdef :: MappedString where
  "scenario_abcdef =
     mappedString (Raw ''abcdef'')
       [Rng \<lparr>start = 2, end_r = 5\<rparr>, Lit ''-X-'', Rng \<lparr>start = 0, end_r = 2\<rparr>]"

definition hello_pieces :: "StringChunk list" where
  "hello_pieces = [Lit ''prefix-literal'', Rng \<lparr>start = 0, end_r = 5\<rparr>, Lit ''suffix-literal'']"

definition scenario_hello :: MappedString where
  "scenario_hello = mappedString (Raw ''hello world'') hello_pieces"

text \<open>A chain of derivations: each piece list is applied to the result of the one before.\<close>

primrec derive :: "MappedString \<Rightarrow> StringChunk list list \<Rightarrow> MappedString" where
  "derive M [] = M"
| "derive M (pieces # rest) = derive (mappedString (Mapped M) pieces) rest"

text \<open>The \<open>value\<close> of a source, and the single piece that is its full range.\<close>

definition source_value :: "source \<Rightarrow> string" where
  "source_value S = (case S of Raw s \<Rightarrow> s | Mapped M \<Rightarrow> value_ms M)"

definition full_range :: "source \<Rightarrow> StringChunk list" where
  "full_range S = [Rng \<lparr>start = 0, end_r = int (length (source_value S))\<rparr>]"

definition scenario_cde :: MappedString where
  "scenario_cde = mappedString (Raw ''abcdef'') [Rng \<lparr>start = 2, end_r = 5\<rparr>]"

text \<open>Two mapped strings over the root \<open>"abcd"\<close>: its first half and its second half.\<close>

definition half_ab :: MappedString where
  "half_ab = mappedString (Raw ''abcd'') [Rng \<lparr>start = 0, end_r = 2\<rparr>]"

definition half_cd :: MappedString where
  "half_cd = mappedString (Raw ''abcd'') [Rng \<lparr>start = 2, end_r = 4\<rparr>]"

text \<open>
  A text of three lines, \<open>"ab\ncd\r\nef"\<close>, and the mapped string \<open>">>cd-ef"\<close> cut from
  its second and third line; and a mapped string whose only source range is empty.
\<close>

definition three_lines :: string where
  "three_lines = ''ab'' @ [CHR 0x0A] @ ''cd'' @ [CHR 0x0D, CHR 0x0A] @ ''ef''"

definition scenario_lines :: MappedString where
  "scenario_lines =
     mappedString (Raw three_lines)
       [Lit ''>>'', Rng \<lparr>start = 3, end_r = 5\<rparr>, Lit ''-'', Rng \<lparr>start = 7, end_r = 9\<rparr>]"

definition scenario_empty_range :: MappedString where
  "scenario_empty_range = mappedString (Raw ''abc'') [Rng \<lparr>start = 0, end_r = 0\<rparr>, Lit ''xy'']"

section \<open>Properties\<close>

declare mapClosest_loop.simps [simp del]

lemma glb_from_snoc:
  "glb_from key q (xs @ [x]) i best =
     (if key x \<le> q then i + int (length xs) else glb_from key q xs i best)"
  by (induction xs arbitrary: i best) simp_all

lemma glb_snoc:
  "glb key (xs @ [x]) q = (if key x \<le> q then int (length xs) else glb key xs q)"
  by (simp add: glb_def glb_from_snoc)

lemma glb_Nil: "glb key [] q = - 1"
  by (simp add: glb_def)

lemma glb_bounds: "- 1 \<le> glb key xs q \<and> glb key xs q < int (length xs)"
  by (induction xs rule: rev_induct) (auto simp: glb_Nil glb_snoc)

lemma glb_key_le:
  "0 \<le> glb key xs q \<Longrightarrow> key (xs ! nat (glb key xs q)) \<le> q"
proof (induction xs rule: rev_induct)
  case Nil
  then show ?case by (simp add: glb_Nil)
next
  case (snoc x xs)
  show ?case
  proof (cases "key x \<le> q")
    case True
    then show ?thesis by (simp add: glb_snoc)
  next
    case False
    with snoc.prems have nonneg: "0 \<le> glb key xs q" by (simp add: glb_snoc)
    have "nat (glb key xs q) < length xs"
      using glb_bounds [of key xs q] nonneg by linarith
    with False snoc.IH [OF nonneg] show ?thesis
      by (simp add: glb_snoc nth_append)
  qed
qed

lemma glb_above:
  "glb key xs q < int j \<Longrightarrow> j < length xs \<Longrightarrow> q < key (xs ! j)"
proof (induction xs rule: rev_induct)
  case Nil
  then show ?case by simp
next
  case (snoc x xs)
  show ?case
  proof (cases "key x \<le> q")
    case True
    with snoc.prems show ?thesis by (simp add: glb_snoc)
  next
    case False
    show ?thesis
    proof (cases "j < length xs")
      case True
      with False snoc show ?thesis by (simp add: glb_snoc nth_append)
    next
      case False
      with snoc.prems have "j = length xs" by simp
      with \<open>\<not> key x \<le> q\<close> show ?thesis by simp
    qed
  qed
qed

lemma glb_unique:
  assumes "k < length xs" and "key (xs ! k) \<le> q"
    and "\<And>j. k < j \<Longrightarrow> j < length xs \<Longrightarrow> q < key (xs ! j)"
  shows "glb key xs q = int k"
proof -
  let ?r = "glb key xs q"
  have "\<not> ?r < int k"
    using glb_above [of key xs q k] assms(1,2) by auto
  moreover have "\<not> int k < ?r"
  proof
    assume gt: "int k < ?r"
    then have nonneg: "0 \<le> ?r" by simp
    have "nat ?r < length xs" using glb_bounds [of key xs q] nonneg by linarith
    moreover have "k < nat ?r" using gt by linarith
    ultimately have "q < key (xs ! nat ?r)" using assms(3) by blast
    with glb_key_le [OF nonneg] show False by simp
  qed
  ultimately show ?thesis by linarith
qed

lemma glb_neg_iff: "glb key xs q < 0 \<longleftrightarrow> (\<forall>x \<in> set xs. q < key x)"
proof
  assume "glb key xs q < 0"
  then have "\<And>j. j < length xs \<Longrightarrow> q < key (xs ! j)"
    using glb_above [of key xs q] by force
  then show "\<forall>x \<in> set xs. q < key x" by (auto simp: in_set_conv_nth)
next
  assume all: "\<forall>x \<in> set xs. q < key x"
  show "glb key xs q < 0"
  proof (rule ccontr)
    assume "\<not> glb key xs q < 0"
    then have nonneg: "0 \<le> glb key xs q" by simp
    have "nat (glb key xs q) < length xs" using glb_bounds [of key xs q] nonneg by linarith
    then have "xs ! nat (glb key xs q) \<in> set xs" by simp
    with all glb_key_le [OF nonneg] show False by force
  qed
qed

subsection \<open>The segment table\<close>

lemma each_piece_eq:
  "each_piece source pieces acc offs res =
     (acc @ segments_from source pieces offs, res @ map (resolve source) pieces)"
proof (induction source pieces acc offs res rule: each_piece.induct)
  case (1 source offsetInfo offs resultList)
  show ?case by simp
next
  case (2 source piece pieces offsetInfo offs resultList)
  then show ?case by (simp add: resolve_def)
next
  case (3 source piece pieces offsetInfo offs resultList)
  then show ?case by (simp add: resolve_def Let_def)
qed

lemma segments_eq: "segments source pieces = segments_from source pieces 0"
  by (simp add: segments_def each_piece_eq)

lemma mappedString_Raw:
  "mappedString (Raw source) pieces =
     \<lparr> value_ms = concat (map (resolve source) pieces),
       originalString = source,
       map_ms = map_base (segments source pieces),
       mapClosest = mapClosest_base (segments source pieces) \<rparr>"
  by (simp add: segments_def each_piece_eq)

lemma mappedString_Mapped:
  "mappedString (Mapped M) pieces =
     \<lparr> value_ms = value_ms (mappedString (Raw (value_ms M)) pieces),
       originalString = originalString M,
       map_ms = (\<lambda>offs. case map_ms (mappedString (Raw (value_ms M)) pieces) offs of
                           Inl e \<Rightarrow> Inl e
                         | Inr None \<Rightarrow> Inr None
                         | Inr (Some v) \<Rightarrow> map_ms M v),
       mapClosest = (\<lambda>offs. case mapClosest (mappedString (Raw (value_ms M)) pieces) offs of
                               Inl e \<Rightarrow> Inl e
                             | Inr None \<Rightarrow> Inr None
                             | Inr (Some v) \<Rightarrow> mapClosest M v) \<rparr>"
  by (simp add: Let_def)

declare mappedString.simps [simp del]

lemma length_segments_from: "length (segments_from source pieces offs) = length pieces"
  by (induction pieces arbitrary: offs) simp_all

lemma segments_from_nth:
  "i < length pieces \<Longrightarrow>
   segments_from source pieces offs ! i =
     \<lparr> fromSource = (case pieces ! i of Lit _ \<Rightarrow> False | Rng _ \<Rightarrow> True),
       length_oi = int (length (resolve source (pieces ! i))),
       offset = offs + int (length (concat (map (resolve source) (take i pieces)))),
       range_oi = (case pieces ! i of Lit _ \<Rightarrow> None | Rng r \<Rightarrow> Some r) \<rparr>"
proof (induction pieces arbitrary: offs i)
  case Nil
  then show ?case by simp
next
  case (Cons p ps)
  show ?case
  proof (cases i)
    case 0
    then show ?thesis by simp
  next
    case (Suc k)
    with Cons.prems have "k < length ps" by simp
    from Cons.IH [OF this] Suc show ?thesis by simp
  qed
qed

lemma segments_nth:
  "i < length pieces \<Longrightarrow>
   segments source pieces ! i =
     \<lparr> fromSource = (case pieces ! i of Lit _ \<Rightarrow> False | Rng _ \<Rightarrow> True),
       length_oi = int (length (resolve source (pieces ! i))),
       offset = int (length (concat (map (resolve source) (take i pieces)))),
       range_oi = (case pieces ! i of Lit _ \<Rightarrow> None | Rng r \<Rightarrow> Some r) \<rparr>"
  by (simp add: segments_eq segments_from_nth)

lemma length_segments: "length (segments source pieces) = length pieces"
  by (simp add: segments_eq length_segments_from)

lemma segments_range:
  assumes "i < length (segments source pieces)" and "fromSource (segments source pieces ! i)"
  shows "\<exists>r. range_oi (segments source pieces ! i) = Some r"
proof -
  from assms(1) have i: "i < length pieces" by (simp add: length_segments)
  from assms(2) show ?thesis
    by (cases "pieces ! i") (simp_all add: segments_nth [OF i])
qed

lemma segments_offset_nonneg:
  "i < length (segments source pieces) \<Longrightarrow> 0 \<le> offset (segments source pieces ! i)"
  by (simp add: length_segments segments_nth)

lemma segments_offset_mono:
  assumes "i \<le> j" and "j < length (segments source pieces)"
  shows "offset (segments source pieces ! i) \<le> offset (segments source pieces ! j)"
proof -
  from assms have j: "j < length pieces" and i: "i < length pieces"
    by (simp_all add: length_segments)
  have "take j pieces = take i pieces @ drop i (take j pieces)"
    using assms(1) by (metis append_take_drop_id min.absorb1 take_take)
  then have "length (concat (map (resolve source) (take i pieces)))
             \<le> length (concat (map (resolve source) (take j pieces)))"
    by (metis concat_append le_add1 length_append map_append)
  then show ?thesis by (simp add: segments_nth [OF i] segments_nth [OF j])
qed

lemma segments_value_length:
  assumes "segments source pieces \<noteq> []"
  shows "offset (last (segments source pieces)) + length_oi (last (segments source pieces))
         = int (length (concat (map (resolve source) pieces)))"
proof -
  from assms have "pieces \<noteq> []" by (auto simp: segments_eq)
  then obtain ps p where pieces: "pieces = ps @ [p]"
    by (cases pieces rule: rev_cases) auto
  have k: "length ps < length pieces" by (simp add: pieces)
  have "last (segments source pieces) = segments source pieces ! length ps"
    using assms by (simp add: last_conv_nth length_segments pieces)
  then show ?thesis
    by (simp add: segments_nth [OF k]) (simp add: pieces)
qed

subsection \<open>The covering segment is the one \<open>glb\<close> finds\<close>

lemma covering_iff:
  "covering segs t i \<longleftrightarrow>
     i < length segs \<and> offset (segs ! i) \<le> t \<and> (\<forall>j. i < j \<and> j < length segs \<longrightarrow> t < offset (segs ! j))"
  by (auto simp: covering_def list_all_iff)

lemma covering_glb:
  assumes "covering segs t i"
  shows "glb offset segs t = int i"
  using assms by (intro glb_unique) (simp_all add: covering_iff)

lemma glb_covering:
  assumes "0 \<le> glb offset segs t"
  shows "covering segs t (nat (glb offset segs t))"
proof -
  let ?i = "nat (glb offset segs t)"
  have "?i < length segs"
    using glb_bounds [of offset segs t] assms by linarith
  moreover have "offset (segs ! ?i) \<le> t"
    by (rule glb_key_le [OF assms])
  moreover have "t < offset (segs ! j)" if "?i < j" and "j < length segs" for j
  proof -
    from that assms have "glb offset segs t < int j" by linarith
    with that show ?thesis using glb_above [of offset segs t j] by simp
  qed
  ultimately show ?thesis by (simp add: covering_iff)
qed

lemma index_js_nat: "i < length xs \<Longrightarrow> index_js xs (int i) = Some (xs ! i)"
  by (simp add: index_js_def)

subsection \<open>\<open>map\<close> and \<open>mapClosest\<close> of the base case\<close>

lemma map_base_no_cover:
  assumes "glb offset segs t < 0"
  shows "map_base segs t = Inr None"
  using assms by (simp add: map_base_def)

lemma map_base_covering:
  assumes "covering segs t i"
  shows "map_base segs t =
           (if \<not> fromSource (segs ! i) then Inr None
            else if length_oi (segs ! i) \<le> t - offset (segs ! i) then Inr None
            else case range_oi (segs ! i) of
                   None \<Rightarrow> Inl TypeError
                 | Some r \<Rightarrow> Inr (Some (start r + (t - offset (segs ! i)))))"
proof -
  from assms have "i < length segs" by (simp add: covering_def)
  then show ?thesis
    by (simp add: map_base_def covering_glb [OF assms] index_js_nat)
qed

lemma loop_exhausted:
  "mapClosest_loop segs t f (- 1) None = Inr None"
  by (subst mapClosest_loop.simps) simp

lemma loop_literal:
  assumes "i < length segs" and "\<not> fromSource (segs ! i)"
  shows "mapClosest_loop segs t f (int i) s = mapClosest_loop segs t f (int i - 1) s"
  using assms by (subst mapClosest_loop.simps) (simp add: index_js_nat)

lemma loop_source:
  assumes "i < length segs" and "fromSource (segs ! i)" and "range_oi (segs ! i) = Some r"
  shows "mapClosest_loop segs t f (int i) s =
           (if int i = f \<and> t - offset (segs ! i) < length_oi (segs ! i)
            then Inr (Some (start r + (t - offset (segs ! i))))
            else Inr (Some (end_r r - 1)))"
  using assms by (subst mapClosest_loop.simps) (simp add: index_js_nat)

lemma loop_all_literal:
  "i < length segs \<Longrightarrow> (\<forall>j \<le> i. \<not> fromSource (segs ! j)) \<Longrightarrow>
   mapClosest_loop segs t f (int i) None = Inr None"
proof (induction i)
  case 0
  then show ?case by (simp add: loop_literal [of 0, simplified] loop_exhausted)
next
  case (Suc i)
  from Suc.prems have "mapClosest_loop segs t f (int (Suc i)) None
                       = mapClosest_loop segs t f (int (Suc i) - 1) None"
    by (intro loop_literal) auto
  also have "int (Suc i) - 1 = int i" by simp
  also have "mapClosest_loop segs t f (int i) None = Inr None"
    using Suc.prems by (intro Suc.IH) auto
  finally show ?case .
qed

lemma loop_skip:
  "i < length segs \<Longrightarrow> k \<le> i \<Longrightarrow> (\<forall>j. k < j \<and> j \<le> i \<longrightarrow> \<not> fromSource (segs ! j)) \<Longrightarrow>
   mapClosest_loop segs t f (int i) s = mapClosest_loop segs t f (int k) s"
proof (induction i)
  case 0
  then show ?case by simp
next
  case (Suc i)
  show ?case
  proof (cases "k = Suc i")
    case True
    then show ?thesis by simp
  next
    case False
    with Suc.prems have k: "k \<le> i" by simp
    from Suc.prems False have "mapClosest_loop segs t f (int (Suc i)) s
                       = mapClosest_loop segs t f (int (Suc i) - 1) s"
      by (intro loop_literal) auto
    also have "int (Suc i) - 1 = int i" by simp
    also have "mapClosest_loop segs t f (int i) s = mapClosest_loop segs t f (int k) s"
      using Suc.prems k by (intro Suc.IH) auto
    finally show ?thesis .
  qed
qed

subsection \<open>\<open>mapClosest\<close> of the base case, by the covering segment\<close>

lemma mapClosest_base_start:
  assumes "covering segs t i" and "0 \<le> t"
  shows "mapClosest_base segs t = mapClosest_loop segs t (int i) (int i) None"
proof -
  from assms(1) have "segs \<noteq> []" by (auto simp: covering_iff)
  with assms(2) show ?thesis
    by (simp add: mapClosest_base_def Let_def covering_glb [OF assms(1)])
qed

lemma mapClosest_base_exact:
  assumes "covering segs t i" and "0 \<le> t" and "fromSource (segs ! i)"
    and "range_oi (segs ! i) = Some r" and "t - offset (segs ! i) < length_oi (segs ! i)"
  shows "mapClosest_base segs t = Inr (Some (start r + (t - offset (segs ! i))))"
proof -
  from assms(1) have "i < length segs" by (simp add: covering_iff)
  from loop_source [OF this assms(3,4)] assms(5) show ?thesis
    by (simp add: mapClosest_base_start [OF assms(1,2)])
qed

lemma mapClosest_base_back:
  assumes "covering segs t i" and "0 \<le> t"
    and "\<not> (fromSource (segs ! i) \<and> t - offset (segs ! i) < length_oi (segs ! i))"
    and "k \<le> i" and "fromSource (segs ! k)" and "range_oi (segs ! k) = Some r"
    and "\<forall>j. k < j \<and> j \<le> i \<longrightarrow> \<not> fromSource (segs ! j)"
  shows "mapClosest_base segs t = Inr (Some (end_r r - 1))"
proof -
  from assms(1) have i: "i < length segs" by (simp add: covering_iff)
  with assms(4) have k: "k < length segs" by simp
  have "mapClosest_base segs t = mapClosest_loop segs t (int i) (int i) None"
    by (rule mapClosest_base_start [OF assms(1,2)])
  also have "\<dots> = mapClosest_loop segs t (int i) (int k) None"
    by (rule loop_skip [OF i assms(4,7)])
  also have "\<dots> = Inr (Some (end_r r - 1))"
  proof (cases "k = i")
    case True
    with assms(3,5) have "\<not> t - offset (segs ! k) < length_oi (segs ! k)" by simp
    then show ?thesis by (simp add: loop_source [OF k assms(5,6)])
  next
    case False
    then show ?thesis by (simp add: loop_source [OF k assms(5,6)])
  qed
  finally show ?thesis .
qed

lemma mapClosest_base_all_literal:
  assumes "covering segs t i" and "0 \<le> t" and "\<forall>j \<le> i. \<not> fromSource (segs ! j)"
  shows "mapClosest_base segs t = Inr None"
proof -
  from assms(1) have "i < length segs" by (simp add: covering_iff)
  from loop_all_literal [OF this assms(3)] show ?thesis
    by (simp add: mapClosest_base_start [OF assms(1,2)])
qed

lemma mapClosest_base_no_cover:
  assumes "glb offset segs t < 0"
  shows "mapClosest_base segs t = Inr None"
proof -
  from assms glb_bounds [of offset segs t] have "glb offset segs t = - 1" by linarith
  then show ?thesis by (simp add: mapClosest_base_def Let_def loop_exhausted)
qed

lemma loop_finds:
  "i < length segs \<Longrightarrow> \<exists>k \<le> i. fromSource (segs ! k) \<Longrightarrow>
   (\<forall>j < length segs. fromSource (segs ! j) \<longrightarrow> range_oi (segs ! j) \<noteq> None) \<Longrightarrow>
   \<exists>v. mapClosest_loop segs t f (int i) s = Inr (Some v)"
proof (induction i)
  case 0
  then have src: "fromSource (segs ! 0)" by simp
  with 0 obtain r where "range_oi (segs ! 0) = Some r" by auto
  from loop_source [OF "0.prems"(1) src this] show ?case by auto
next
  case (Suc i)
  show ?case
  proof (cases "fromSource (segs ! Suc i)")
    case True
    with Suc.prems obtain r where "range_oi (segs ! Suc i) = Some r" by auto
    from loop_source [OF Suc.prems(1) True this] show ?thesis by auto
  next
    case False
    with Suc.prems(2) have ex: "\<exists>k \<le> i. fromSource (segs ! k)"
      by (metis le_Suc_eq)
    from Suc.prems(1) have "i < length segs" by simp
    from Suc.IH [OF this ex Suc.prems(3)] loop_literal [OF Suc.prems(1) False]
    show ?thesis by simp
  qed
qed

text \<open>On a table built by \<open>mappedString\<close>, offsets start at 0 and never decrease.\<close>

lemma segments_covering_nonneg:
  assumes "covering (segments source pieces) t i"
  shows "0 \<le> t"
proof -
  from assms have "i < length (segments source pieces)"
    and "offset (segments source pieces ! i) \<le> t" by (simp_all add: covering_iff)
  with segments_offset_nonneg [of i source pieces] show ?thesis by simp
qed

lemma segments_cover_exists:
  assumes "segments source pieces \<noteq> []" and "0 \<le> t"
  shows "0 \<le> glb offset (segments source pieces) t"
proof (rule ccontr)
  assume "\<not> 0 \<le> glb offset (segments source pieces) t"
  then have "\<forall>x \<in> set (segments source pieces). t < offset x"
    by (simp add: glb_neg_iff [symmetric])
  moreover from assms(1) have "segments source pieces ! 0 \<in> set (segments source pieces)"
    by simp
  moreover have "offset (segments source pieces ! 0) = 0"
  proof -
    from assms(1) have "0 < length (segments source pieces)" by simp
    then have "0 < length pieces" by (simp only: length_segments)
    then show ?thesis by (simp add: segments_nth)
  qed
  ultimately show False using assms(2) by force
qed

lemma segments_ranges:
  "\<forall>j < length (segments source pieces).
     fromSource (segments source pieces ! j) \<longrightarrow> range_oi (segments source pieces ! j) \<noteq> None"
  using segments_range [of _ source pieces] by auto

lemma map_base_segments_total:
  "map_base (segments source pieces) t = Inr None
   \<or> (\<exists>v. map_base (segments source pieces) t = Inr (Some v))"
proof (cases "glb offset (segments source pieces) t < 0")
  case True
  then show ?thesis by (simp add: map_base_no_cover)
next
  case False
  then have cov: "covering (segments source pieces) t (nat (glb offset (segments source pieces) t))"
    by (intro glb_covering) simp
  then have "nat (glb offset (segments source pieces) t) < length (segments source pieces)"
    by (simp add: covering_iff)
  from segments_range [OF this] show ?thesis
    by (auto simp: map_base_covering [OF cov])
qed

lemma mapClosest_base_segments_total:
  "mapClosest_base (segments source pieces) t = Inr None
   \<or> (\<exists>v. mapClosest_base (segments source pieces) t = Inr (Some v))"
proof (cases "glb offset (segments source pieces) t < 0")
  case True
  then show ?thesis by (simp add: mapClosest_base_no_cover)
next
  case False
  let ?segs = "segments source pieces"
  let ?i = "nat (glb offset ?segs t)"
  from False have cov: "covering ?segs t ?i" by (intro glb_covering) simp
  then have i: "?i < length ?segs" by (simp add: covering_iff)
  have t: "0 \<le> t" by (rule segments_covering_nonneg [OF cov])
  show ?thesis
  proof (cases "\<exists>k \<le> ?i. fromSource (?segs ! k)")
    case True
    from loop_finds [OF i True segments_ranges] show ?thesis
      by (simp add: mapClosest_base_start [OF cov t])
  next
    case False
    then have "\<forall>j \<le> ?i. \<not> fromSource (?segs ! j)" by simp
    from mapClosest_base_all_literal [OF cov t this] show ?thesis by simp
  qed
qed

lemma mapClosest_base_segments_None_iff:
  "mapClosest_base (segments source pieces) t = Inr None
   \<longleftrightarrow> \<not> (\<exists>k < length (segments source pieces).
            fromSource (segments source pieces ! k) \<and> offset (segments source pieces ! k) \<le> t)"
proof -
  let ?segs = "segments source pieces"
  show ?thesis
  proof (cases "?segs = [] \<or> t < 0")
    case True
    then have "mapClosest_base ?segs t = Inr None" by (auto simp: mapClosest_base_def)
    moreover have "\<not> (\<exists>k < length ?segs. fromSource (?segs ! k) \<and> offset (?segs ! k) \<le> t)"
      using True segments_offset_nonneg [of _ source pieces] by fastforce
    ultimately show ?thesis by simp
  next
    case False
    then have ne: "?segs \<noteq> []" and t: "0 \<le> t" by simp_all
    let ?i = "nat (glb offset ?segs t)"
    have nonneg: "0 \<le> glb offset ?segs t" by (rule segments_cover_exists [OF ne t])
    then have cov: "covering ?segs t ?i" by (rule glb_covering)
    then have i: "?i < length ?segs" by (simp add: covering_iff)
    have before: "(\<exists>k < length ?segs. fromSource (?segs ! k) \<and> offset (?segs ! k) \<le> t)
                  \<longleftrightarrow> (\<exists>k \<le> ?i. fromSource (?segs ! k))"
    proof
      assume "\<exists>k < length ?segs. fromSource (?segs ! k) \<and> offset (?segs ! k) \<le> t"
      then obtain k where k: "k < length ?segs" "fromSource (?segs ! k)" "offset (?segs ! k) \<le> t"
        by blast
      have "k \<le> ?i"
      proof (rule ccontr)
        assume "\<not> k \<le> ?i"
        with cov k(1) have "t < offset (?segs ! k)" by (simp add: covering_iff)
        with k(3) show False by simp
      qed
      with k(2) show "\<exists>k \<le> ?i. fromSource (?segs ! k)" by blast
    next
      assume "\<exists>k \<le> ?i. fromSource (?segs ! k)"
      then obtain k where k: "k \<le> ?i" "fromSource (?segs ! k)" by blast
      from segments_offset_mono [OF k(1) i] cov have "offset (?segs ! k) \<le> t"
        by (simp add: covering_iff)
      with k i show "\<exists>k < length ?segs. fromSource (?segs ! k) \<and> offset (?segs ! k) \<le> t"
        by (metis le_less_trans)
    qed
    show ?thesis
    proof (cases "\<exists>k \<le> ?i. fromSource (?segs ! k)")
      case True
      from loop_finds [OF i True segments_ranges]
      obtain v where "mapClosest_loop ?segs t (int ?i) (int ?i) None = Inr (Some v)" by blast
      then have "mapClosest_base ?segs t \<noteq> Inr None"
        by (simp only: mapClosest_base_start [OF cov t]) simp
      with True before show ?thesis by simp
    next
      case False
      then have "\<forall>j \<le> ?i. \<not> fromSource (?segs ! j)" by simp
      from mapClosest_base_all_literal [OF cov t this] False before show ?thesis by simp
    qed
  qed
qed

text \<open>
  C5. Base case of \<open>mappedString\<close> (raw-text source): \<open>value\<close> is the concatenation of
  the resolved pieces and \<open>originalString\<close> is the source; there is one segment per
  piece, starting where the text of the pieces before it ends, so that the table is
  ordered by offset; \<open>map(t)\<close> is "unmapped"
  when the segment covering \<open>t\<close> is literal or \<open>t\<close> falls past the segment's length, and
  \<open>range.start + (t - segment.offset)\<close> otherwise; it is "unmapped" too when no segment
  covers \<open>t\<close>. For the source \<open>"abcdef"\<close> and the pieces \<open>[range(2,5), "-X-", range(0,2)]\<close>:
  \<open>value = "cde-X-ab"\<close>, \<open>map\<close> sends 0, 1, 2 to 2, 3, 4, is unmapped at 3, 4, 5, sends
  6, 7 to 0, 1, and \<open>mapClosest\<close> sends 3, 4, 5 to 4.
\<close>

theorem mappedString_raw_value_map:
  "value_ms (mappedString (Raw source) pieces) = concat (map (resolve source) pieces)
   \<and> originalString (mappedString (Raw source) pieces) = source
   \<and> length (segments source pieces) = length pieces
   \<and> (\<forall>i < length pieces.
         fromSource (segments source pieces ! i) = (case pieces ! i of Lit _ \<Rightarrow> False | Rng _ \<Rightarrow> True)
       \<and> length_oi (segments source pieces ! i) = int (length (resolve source (pieces ! i)))
       \<and> offset (segments source pieces ! i)
           = int (length (concat (map (resolve source) (take i pieces))))
       \<and> range_oi (segments source pieces ! i) = (case pieces ! i of Lit _ \<Rightarrow> None | Rng r \<Rightarrow> Some r))
   \<and> (\<forall>t i. covering (segments source pieces) t i \<longrightarrow>
         (\<not> fromSource (segments source pieces ! i)
            \<longrightarrow> map_ms (mappedString (Raw source) pieces) t = Inr None)
       \<and> (length_oi (segments source pieces ! i) \<le> t - offset (segments source pieces ! i)
            \<longrightarrow> map_ms (mappedString (Raw source) pieces) t = Inr None)
       \<and> (fromSource (segments source pieces ! i)
          \<and> t - offset (segments source pieces ! i) < length_oi (segments source pieces ! i)
            \<longrightarrow> (\<exists>r. range_oi (segments source pieces ! i) = Some r
                   \<and> map_ms (mappedString (Raw source) pieces) t
                       = Inr (Some (start r + (t - offset (segments source pieces ! i)))))))
   \<and> (\<forall>t. (\<forall>i. \<not> covering (segments source pieces) t i)
         \<longrightarrow> map_ms (mappedString (Raw source) pieces) t = Inr None)
   \<and> sorted (map offset (segments source pieces))
   \<and> value_ms scenario_abcdef = ''cde-X-ab''
   \<and> map (map_ms scenario_abcdef) [0, 1, 2, 3, 4, 5, 6, 7]
       = [Inr (Some 2), Inr (Some 3), Inr (Some 4), Inr None, Inr None, Inr None,
          Inr (Some 0), Inr (Some 1)]
   \<and> map (mapClosest scenario_abcdef) [3, 4, 5] = [Inr (Some 4), Inr (Some 4), Inr (Some 4)]"
proof -
  let ?M = "mappedString (Raw source) pieces"
  let ?segs = "segments source pieces"
  have val: "value_ms ?M = concat (map (resolve source) pieces)"
    and orig: "originalString ?M = source"
    by (simp_all add: mappedString_Raw)
  have len: "length ?segs = length pieces" by (rule length_segments)
  have fields: "\<forall>i < length pieces.
         fromSource (?segs ! i) = (case pieces ! i of Lit _ \<Rightarrow> False | Rng _ \<Rightarrow> True)
       \<and> length_oi (?segs ! i) = int (length (resolve source (pieces ! i)))
       \<and> offset (?segs ! i) = int (length (concat (map (resolve source) (take i pieces))))
       \<and> range_oi (?segs ! i) = (case pieces ! i of Lit _ \<Rightarrow> None | Rng r \<Rightarrow> Some r)"
    by (simp add: segments_nth)
  have covered: "\<forall>t i. covering ?segs t i \<longrightarrow>
         (\<not> fromSource (?segs ! i) \<longrightarrow> map_ms ?M t = Inr None)
       \<and> (length_oi (?segs ! i) \<le> t - offset (?segs ! i) \<longrightarrow> map_ms ?M t = Inr None)
       \<and> (fromSource (?segs ! i) \<and> t - offset (?segs ! i) < length_oi (?segs ! i)
            \<longrightarrow> (\<exists>r. range_oi (?segs ! i) = Some r
                   \<and> map_ms ?M t = Inr (Some (start r + (t - offset (?segs ! i))))))"
  proof (intro allI impI)
    fix t i
    assume cov: "covering ?segs t i"
    then have i: "i < length ?segs" by (simp add: covering_iff)
    have m: "map_ms ?M t = map_base ?segs t" by (simp add: mappedString_Raw)
    show "(\<not> fromSource (?segs ! i) \<longrightarrow> map_ms ?M t = Inr None)
       \<and> (length_oi (?segs ! i) \<le> t - offset (?segs ! i) \<longrightarrow> map_ms ?M t = Inr None)
       \<and> (fromSource (?segs ! i) \<and> t - offset (?segs ! i) < length_oi (?segs ! i)
            \<longrightarrow> (\<exists>r. range_oi (?segs ! i) = Some r
                   \<and> map_ms ?M t = Inr (Some (start r + (t - offset (?segs ! i))))))"
      using segments_range [OF i] by (auto simp: m map_base_covering [OF cov])
  qed
  have uncovered: "\<forall>t. (\<forall>i. \<not> covering ?segs t i) \<longrightarrow> map_ms ?M t = Inr None"
  proof (intro allI impI)
    fix t
    assume none: "\<forall>i. \<not> covering ?segs t i"
    have "glb offset ?segs t < 0"
    proof (rule ccontr)
      assume "\<not> glb offset ?segs t < 0"
      then have "covering ?segs t (nat (glb offset ?segs t))"
        by (intro glb_covering) simp
      with none show False by blast
    qed
    then show "map_ms ?M t = Inr None"
      by (simp add: mappedString_Raw map_base_no_cover)
  qed
  have ordered: "sorted (map offset ?segs)"
    by (simp add: sorted_iff_nth_mono segments_offset_mono)
  have s1: "value_ms scenario_abcdef = ''cde-X-ab''"
    unfolding scenario_abcdef_def by code_simp
  have s2: "map (map_ms scenario_abcdef) [0, 1, 2, 3, 4, 5, 6, 7]
       = [Inr (Some 2), Inr (Some 3), Inr (Some 4), Inr None, Inr None, Inr None,
          Inr (Some 0), Inr (Some 1)]"
    unfolding scenario_abcdef_def by code_simp
  have s3: "map (mapClosest scenario_abcdef) [3, 4, 5] = [Inr (Some 4), Inr (Some 4), Inr (Some 4)]"
    unfolding scenario_abcdef_def by code_simp
  from val orig len fields covered uncovered ordered s1 s2 s3 show ?thesis by blast
qed

theorem mappedString_raw_value_map_witness:
  "covering (segments ''abcdef'' [Rng \<lparr>start = 2, end_r = 5\<rparr>, Lit ''-X-'', Rng \<lparr>start = 0, end_r = 2\<rparr>]) 7 2
   \<and> map_ms (mappedString (Raw ''abcdef'')
               [Rng \<lparr>start = 2, end_r = 5\<rparr>, Lit ''-X-'', Rng \<lparr>start = 0, end_r = 2\<rparr>]) 7
       = Inr (Some 1)
   \<and> covering (segments ''abcdef'' [Rng \<lparr>start = 2, end_r = 5\<rparr>, Lit ''-X-'', Rng \<lparr>start = 0, end_r = 2\<rparr>]) 4 1
   \<and> map_ms (mappedString (Raw ''abcdef'')
               [Rng \<lparr>start = 2, end_r = 5\<rparr>, Lit ''-X-'', Rng \<lparr>start = 0, end_r = 2\<rparr>]) 4
       = Inr None"
proof -
  let ?ps = "[Rng \<lparr>start = 2, end_r = 5\<rparr>, Lit ''-X-'', Rng \<lparr>start = 0, end_r = 2\<rparr>]"
  have segs: "segments ''abcdef'' ?ps =
     [\<lparr>fromSource = True, length_oi = 3, offset = 0, range_oi = Some \<lparr>start = 2, end_r = 5\<rparr>\<rparr>,
      \<lparr>fromSource = False, length_oi = 3, offset = 3, range_oi = None\<rparr>,
      \<lparr>fromSource = True, length_oi = 2, offset = 6, range_oi = Some \<lparr>start = 0, end_r = 2\<rparr>\<rparr>]"
    by (simp add: segments_def substring_def)
  have c1: "covering (segments ''abcdef'' ?ps) 7 2"
    and c2: "covering (segments ''abcdef'' ?ps) 4 1"
    by (simp_all add: segs covering_def)
  note covered = mappedString_raw_value_map [of "''abcdef''" ?ps,
      THEN conjunct2, THEN conjunct2, THEN conjunct2, THEN conjunct2, THEN conjunct1, rule_format]
  from covered [OF c1] have m1: "map_ms (mappedString (Raw ''abcdef'') ?ps) 7 = Inr (Some 1)"
    by (simp add: segs)
  from covered [OF c2] have m2: "map_ms (mappedString (Raw ''abcdef'') ?ps) 4 = Inr None"
    by (simp add: segs)
  from c1 m1 c2 m2 show ?thesis by simp
qed

subsection \<open>The closest-match map of the base case\<close>

lemma hello_segments:
  "segments ''hello world'' hello_pieces =
     [\<lparr>fromSource = False, length_oi = 14, offset = 0, range_oi = None\<rparr>,
      \<lparr>fromSource = True, length_oi = 5, offset = 14, range_oi = Some \<lparr>start = 0, end_r = 5\<rparr>\<rparr>,
      \<lparr>fromSource = False, length_oi = 14, offset = 19, range_oi = None\<rparr>]"
  by (simp add: segments_def hello_pieces_def substring_def)

lemma hello_prefix:
  assumes "0 \<le> t" and "t < 14"
  shows "mapClosest scenario_hello t = Inr None"
proof -
  from assms have cov: "covering (segments ''hello world'' hello_pieces) t 0"
    by (simp add: hello_segments covering_def)
  have "mapClosest_base (segments ''hello world'' hello_pieces) t = Inr None"
    by (rule mapClosest_base_all_literal [OF cov assms(1)]) (simp add: hello_segments)
  then show ?thesis by (simp add: scenario_hello_def mappedString_Raw)
qed

lemma hello_suffix:
  assumes "19 \<le> t"
  shows "mapClosest scenario_hello t = Inr (Some 4)"
proof -
  let ?segs = "segments ''hello world'' hello_pieces"
  from assms have cov: "covering ?segs t 2" and t: "0 \<le> t"
    by (simp_all add: hello_segments covering_def)
  have "mapClosest_base ?segs t = Inr (Some (end_r \<lparr>start = 0, end_r = 5\<rparr> - 1))"
  proof (rule mapClosest_base_back [OF cov t, where k = 1])
    show "\<forall>j. 1 < j \<and> j \<le> 2 \<longrightarrow> \<not> fromSource (?segs ! j)"
    proof (intro allI impI)
      fix j :: nat
      assume "1 < j \<and> j \<le> 2"
      then have "j = 2" by simp
      then show "\<not> fromSource (?segs ! j)" by (simp add: hello_segments)
    qed
  qed (simp_all add: hello_segments)
  then show ?thesis by (simp add: scenario_hello_def mappedString_Raw)
qed

text \<open>
  C2. For a mapped string built by \<open>mappedString\<close> over a raw text and every offset \<open>t\<close>:
  when the segment covering \<open>t\<close> (the anchor) is source-derived and \<open>t\<close> falls within
  its length, \<open>mapClosest(t)\<close> is the exact position \<open>map(t)\<close>; otherwise it is
  \<open>range.end - 1\<close> of the nearest source-derived segment at or before the anchor;
  it is "unmapped" exactly when no source-derived segment starts at or before \<open>t\<close>, and
  it never raises. For the pieces \<open>["prefix-literal", range(0,5), "suffix-literal"]\<close>
  over \<open>"hello world"\<close>, \<open>mapClosest\<close> is unmapped inside the prefix literal and 4
  inside the suffix literal.
\<close>

theorem mapClosest_raw_closest:
  "(\<forall>t i. covering (segments source pieces) t i
           \<and> fromSource (segments source pieces ! i)
           \<and> t - offset (segments source pieces ! i) < length_oi (segments source pieces ! i)
        \<longrightarrow> mapClosest (mappedString (Raw source) pieces) t
              = map_ms (mappedString (Raw source) pieces) t
          \<and> (\<exists>r. range_oi (segments source pieces ! i) = Some r
                \<and> mapClosest (mappedString (Raw source) pieces) t
                    = Inr (Some (start r + (t - offset (segments source pieces ! i))))))
   \<and> (\<forall>t i k. covering (segments source pieces) t i
           \<and> \<not> (fromSource (segments source pieces ! i)
                \<and> t - offset (segments source pieces ! i) < length_oi (segments source pieces ! i))
           \<and> k \<le> i \<and> fromSource (segments source pieces ! k)
           \<and> (\<forall>j. k < j \<and> j \<le> i \<longrightarrow> \<not> fromSource (segments source pieces ! j))
        \<longrightarrow> (\<exists>r. range_oi (segments source pieces ! k) = Some r
                \<and> mapClosest (mappedString (Raw source) pieces) t = Inr (Some (end_r r - 1))))
   \<and> (\<forall>t. mapClosest (mappedString (Raw source) pieces) t = Inr None
           \<longleftrightarrow> \<not> (\<exists>k < length (segments source pieces).
                     fromSource (segments source pieces ! k)
                     \<and> offset (segments source pieces ! k) \<le> t))
   \<and> (\<forall>t. mapClosest (mappedString (Raw source) pieces) t = Inr None
           \<or> (\<exists>v. mapClosest (mappedString (Raw source) pieces) t = Inr (Some v)))
   \<and> value_ms scenario_hello = ''prefix-literalhellosuffix-literal''
   \<and> (\<forall>t. 0 \<le> t \<and> t < 14 \<longrightarrow> mapClosest scenario_hello t = Inr None)
   \<and> (\<forall>t. 14 + 5 \<le> t \<and> t < 14 + 5 + 14 \<longrightarrow> mapClosest scenario_hello t = Inr (Some 4))"
proof -
  let ?M = "mappedString (Raw source) pieces"
  let ?segs = "segments source pieces"
  have mc: "mapClosest ?M = mapClosest_base ?segs" and m: "map_ms ?M = map_base ?segs"
    by (simp_all add: mappedString_Raw)
  have exact: "mapClosest ?M t = map_ms ?M t
          \<and> (\<exists>r. range_oi (?segs ! i) = Some r
                \<and> mapClosest ?M t = Inr (Some (start r + (t - offset (?segs ! i)))))"
    if "covering ?segs t i \<and> fromSource (?segs ! i) \<and> t - offset (?segs ! i) < length_oi (?segs ! i)"
    for t i
  proof -
    from that have cov: "covering ?segs t i" and src: "fromSource (?segs ! i)"
      and loc: "t - offset (?segs ! i) < length_oi (?segs ! i)" by simp_all
    from cov have "i < length ?segs" by (simp add: covering_iff)
    from segments_range [OF this src] obtain r where r: "range_oi (?segs ! i) = Some r" ..
    have t: "0 \<le> t" by (rule segments_covering_nonneg [OF cov])
    have "mapClosest_base ?segs t = Inr (Some (start r + (t - offset (?segs ! i))))"
      by (rule mapClosest_base_exact [OF cov t src r loc])
    moreover have "map_base ?segs t = Inr (Some (start r + (t - offset (?segs ! i))))"
      using src r loc by (simp add: map_base_covering [OF cov])
    ultimately show ?thesis by (simp add: mc m r)
  qed
  have nearest: "\<exists>r. range_oi (?segs ! k) = Some r \<and> mapClosest ?M t = Inr (Some (end_r r - 1))"
    if "covering ?segs t i
         \<and> \<not> (fromSource (?segs ! i) \<and> t - offset (?segs ! i) < length_oi (?segs ! i))
         \<and> k \<le> i \<and> fromSource (?segs ! k)
         \<and> (\<forall>j. k < j \<and> j \<le> i \<longrightarrow> \<not> fromSource (?segs ! j))"
    for t i k
  proof -
    from that have cov: "covering ?segs t i"
      and past: "\<not> (fromSource (?segs ! i) \<and> t - offset (?segs ! i) < length_oi (?segs ! i))"
      and k: "k \<le> i" and src: "fromSource (?segs ! k)"
      and lits: "\<forall>j. k < j \<and> j \<le> i \<longrightarrow> \<not> fromSource (?segs ! j)" by simp_all
    from cov k have "k < length ?segs" by (simp add: covering_iff)
    from segments_range [OF this src] obtain r where r: "range_oi (?segs ! k) = Some r" ..
    have t: "0 \<le> t" by (rule segments_covering_nonneg [OF cov])
    have "mapClosest_base ?segs t = Inr (Some (end_r r - 1))"
      by (rule mapClosest_base_back [OF cov t past k src r lits])
    with r show ?thesis by (simp add: mc)
  qed
  have none: "mapClosest ?M t = Inr None
           \<longleftrightarrow> \<not> (\<exists>k < length ?segs. fromSource (?segs ! k) \<and> offset (?segs ! k) \<le> t)" for t
    by (simp only: mc mapClosest_base_segments_None_iff)
  have total: "mapClosest ?M t = Inr None \<or> (\<exists>v. mapClosest ?M t = Inr (Some v))" for t
    by (simp only: mc mapClosest_base_segments_total)
  have v: "value_ms scenario_hello = ''prefix-literalhellosuffix-literal''"
    unfolding scenario_hello_def hello_pieces_def by code_simp
  have pre: "\<forall>t. 0 \<le> t \<and> t < 14 \<longrightarrow> mapClosest scenario_hello t = Inr None"
    by (simp add: hello_prefix)
  have suf: "\<forall>t. 14 + 5 \<le> t \<and> t < 14 + 5 + 14 \<longrightarrow> mapClosest scenario_hello t = Inr (Some 4)"
    by (simp add: hello_suffix)
  from exact nearest none total v pre suf show ?thesis by blast
qed

theorem mapClosest_raw_closest_witness:
  "covering (segments ''hello world'' hello_pieces) 15 1
   \<and> mapClosest (mappedString (Raw ''hello world'') hello_pieces) 15 = Inr (Some 1)
   \<and> covering (segments ''hello world'' hello_pieces) 20 2
   \<and> mapClosest (mappedString (Raw ''hello world'') hello_pieces) 20 = Inr (Some 4)
   \<and> mapClosest (mappedString (Raw ''hello world'') hello_pieces) 3 = Inr None
   \<and> mapClosest scenario_hello 13 = Inr None
   \<and> mapClosest scenario_hello 32 = Inr (Some 4)"
proof -
  let ?segs = "segments ''hello world'' hello_pieces"
  let ?M = "mappedString (Raw ''hello world'') hello_pieces"
  note inst = mapClosest_raw_closest [of "''hello world''" hello_pieces]
  have c1: "covering ?segs 15 1" and c2: "covering ?segs 20 2"
    by (simp_all add: hello_segments covering_def)
  have lits: "\<forall>j. 1 < j \<and> j \<le> 2 \<longrightarrow> \<not> fromSource (?segs ! j)"
  proof (intro allI impI)
    fix j :: nat
    assume "1 < j \<and> j \<le> 2"
    then have "j = 2" by simp
    then show "\<not> fromSource (?segs ! j)" by (simp add: hello_segments)
  qed
  have pre1: "covering ?segs 15 1 \<and> fromSource (?segs ! 1)
               \<and> 15 - offset (?segs ! 1) < length_oi (?segs ! 1)"
    using c1 by (simp add: hello_segments)
  note exact = inst [THEN conjunct1, rule_format, OF pre1, THEN conjunct2]
  then have m1: "mapClosest ?M 15 = Inr (Some 1)" by (simp add: hello_segments)
  from inst [THEN conjunct2, THEN conjunct1, rule_format, of 20 2 1] c2 lits
  have m2: "mapClosest ?M 20 = Inr (Some 4)" by (simp add: hello_segments)
  have "\<not> (\<exists>k < length ?segs. fromSource (?segs ! k) \<and> offset (?segs ! k) \<le> 3)"
  proof
    assume "\<exists>k < length ?segs. fromSource (?segs ! k) \<and> offset (?segs ! k) \<le> 3"
    then obtain k where k: "k < length ?segs" "fromSource (?segs ! k)" "offset (?segs ! k) \<le> 3"
      by blast
    have "length ?segs = 3" by (simp add: hello_segments)
    with k(1) have "k = 0 \<or> k = 1 \<or> k = 2" by linarith
    with k(2,3) show False by (auto simp: hello_segments)
  qed
  with inst [THEN conjunct2, THEN conjunct2, THEN conjunct1, rule_format, of 3]
  have m3: "mapClosest ?M 3 = Inr None" by blast
  from inst [THEN conjunct2, THEN conjunct2, THEN conjunct2, THEN conjunct2, THEN conjunct2,
      THEN conjunct1, rule_format, of 13]
  have m4: "mapClosest scenario_hello 13 = Inr None" by simp
  from inst [THEN conjunct2, THEN conjunct2, THEN conjunct2, THEN conjunct2, THEN conjunct2,
      THEN conjunct2, rule_format, of 32]
  have m5: "mapClosest scenario_hello 32 = Inr (Some 4)" by simp
  from c1 m1 c2 m2 m3 m4 m5 show ?thesis by simp
qed

subsection \<open>\<open>mapClosest\<close> extends \<open>map\<close>\<close>

lemma map_base_imp_closest:
  assumes "map_base (segments source pieces) t = Inr (Some v)"
  shows "mapClosest_base (segments source pieces) t = Inr (Some v)"
proof -
  let ?segs = "segments source pieces"
  let ?i = "nat (glb offset ?segs t)"
  have "\<not> glb offset ?segs t < 0"
    using assms by (auto simp: map_base_no_cover)
  then have cov: "covering ?segs t ?i" by (intro glb_covering) simp
  have t: "0 \<le> t" by (rule segments_covering_nonneg [OF cov])
  from assms have src: "fromSource (?segs ! ?i)"
    and loc: "t - offset (?segs ! ?i) < length_oi (?segs ! ?i)"
    by (auto simp: map_base_covering [OF cov] split: if_splits)
  from cov have "?i < length ?segs" by (simp add: covering_iff)
  from segments_range [OF this src] obtain r where r: "range_oi (?segs ! ?i) = Some r" ..
  from assms src loc r have "v = start r + (t - offset (?segs ! ?i))"
    by (simp add: map_base_covering [OF cov])
  with mapClosest_base_exact [OF cov t src r loc] show ?thesis by simp
qed

lemma index_js_in_set: "index_js xs i = Some x \<Longrightarrow> x \<in> set xs"
  by (auto simp: index_js_def split: if_splits)

lemma mappedConcat_Inr:
  assumes "mappedConcat strings = Inr C"
  shows "strings \<noteq> []"
    and "value_ms C = concat (map value_ms strings)"
    and "originalString C = originalString (strings ! 0)"
    and "map_ms C = concat_route map_ms strings (concat_offsets strings 0) (value_ms C)"
    and "mapClosest C = concat_route mapClosest strings (concat_offsets strings 0) (value_ms C)"
  using assms by (auto simp: mappedConcat_def Let_def concat_route_def fun_eq_iff split: if_splits)

lemma concat_route_cases:
  assumes "concat_route method strings offsets val t = Inr (Some v)"
  obtains s where "s \<in> set strings"
    and "index_js strings (glb id offsets t) = Some s"
    and "method s (t - offsets ! nat (glb id offsets t)) = Inr (Some v)"
    and "0 \<le> t" and "t < int (length val)"
proof -
  from assms have range: "0 \<le> t" "t < int (length val)"
    by (auto simp: concat_route_def split: if_splits)
  with assms obtain s where s: "index_js strings (glb id offsets t) = Some s"
    and m: "method s (t - offsets ! nat (glb id offsets t)) = Inr (Some v)"
    by (auto simp: concat_route_def Let_def split: option.splits)
  from index_js_in_set [OF s] s m range that show ?thesis by blast
qed

text \<open>
  C4. For every mapped string produced by \<open>mappedString\<close>, \<open>asMappedString\<close> or
  \<open>mappedConcat\<close> and every offset \<open>t\<close>: whenever \<open>map(t)\<close> is defined, \<open>mapClosest(t)\<close>
  returns the same value.
\<close>

theorem map_defined_mapClosest_same:
  "produced M \<Longrightarrow> map_ms M t = Inr (Some v) \<Longrightarrow> mapClosest M t = Inr (Some v)"
proof (induction M arbitrary: t v rule: produced.induct)
  case (produced_as str)
  then show ?case by (simp add: asMappedString_def)
next
  case (produced_raw s pieces)
  then show ?case by (simp add: mappedString_Raw map_base_imp_closest)
next
  case (produced_mapped M pieces)
  let ?I = "mappedString (Raw (value_ms M)) pieces"
  from produced_mapped.prems obtain w where w: "map_ms ?I t = Inr (Some w)"
    and v: "map_ms M w = Inr (Some v)"
    by (auto simp: mappedString_Mapped split: sum.splits option.splits)
  from w have "mapClosest ?I t = Inr (Some w)"
    by (simp add: mappedString_Raw map_base_imp_closest)
  moreover from v have "mapClosest M w = Inr (Some v)" by (rule produced_mapped.IH)
  ultimately show ?case by (simp add: mappedString_Mapped)
next
  case (produced_concat strings C)
  note C = mappedConcat_Inr [OF produced_concat.hyps]
  let ?offsets = "concat_offsets strings 0"
  from produced_concat.prems
  have "concat_route map_ms strings ?offsets (value_ms C) t = Inr (Some v)"
    by (simp add: C(4) [symmetric])
  then obtain s where s: "s \<in> set strings"
    and ix: "index_js strings (glb id ?offsets t) = Some s"
    and m: "map_ms s (t - ?offsets ! nat (glb id ?offsets t)) = Inr (Some v)"
    and range: "0 \<le> t" "t < int (length (value_ms C))"
    by (rule concat_route_cases)
  from produced_concat.IH s m
  have "mapClosest s (t - ?offsets ! nat (glb id ?offsets t)) = Inr (Some v)" by blast
  with ix range have "concat_route mapClosest strings ?offsets (value_ms C) t = Inr (Some v)"
    by (simp add: concat_route_def)
  then show ?case by (simp add: C(5) [symmetric])
qed

theorem map_defined_mapClosest_same_witness:
  "produced scenario_abcdef
   \<and> map_ms scenario_abcdef 6 = Inr (Some 0)
   \<and> mapClosest scenario_abcdef 6 = Inr (Some 0)"
proof -
  have p: "produced scenario_abcdef"
    unfolding scenario_abcdef_def by (rule produced_raw)
  have m: "map_ms scenario_abcdef 6 = Inr (Some 0)"
    unfolding scenario_abcdef_def by code_simp
  from p m map_defined_mapClosest_same [OF p m] show ?thesis by simp
qed

subsection \<open>The recursive case of \<open>mappedString\<close>\<close>

lemma derive_originalString: "originalString (derive M pss) = originalString M"
  by (induction pss arbitrary: M) (simp_all add: mappedString_Mapped)

lemma mappedString_Raw_map_total:
  "map_ms (mappedString (Raw s) pieces) t \<noteq> Inl e"
  using map_base_segments_total [of s pieces t] by (auto simp: mappedString_Raw)

lemma mappedString_Raw_mapClosest_total:
  "mapClosest (mappedString (Raw s) pieces) t \<noteq> Inl e"
  using mapClosest_base_segments_total [of s pieces t] by (auto simp: mappedString_Raw)

text \<open>
  C3. For a mapped string \<open>M\<close> and a piece list, \<open>mappedString(M, pieces)\<close> has the
  \<open>originalString\<close> of \<open>M\<close> (the root text, also at the end of a chain of derivations
  that starts from a raw text \<open>R\<close>), not the value of \<open>M\<close>; its value is that of the
  intermediate mapped string built against \<open>M.value\<close>; its \<open>map(t)\<close> is
  \<open>M.map(intermediate.map(t))\<close>, "unmapped" when the intermediate map is, and the
  intermediate map never raises; \<open>mapClosest\<close> composes in the same way.
\<close>

theorem mappedString_mapped_composes:
  "originalString (mappedString (Mapped M) pieces) = originalString M
   \<and> originalString (mappedString (Mapped (derive (mappedString (Raw R) pieces0) pss)) pieces) = R
   \<and> value_ms (mappedString (Mapped M) pieces)
       = value_ms (mappedString (Raw (value_ms M)) pieces)
   \<and> map_ms (mappedString (Mapped M) pieces) t
       = (case map_ms (mappedString (Raw (value_ms M)) pieces) t of
            Inl e \<Rightarrow> Inl e
          | Inr None \<Rightarrow> Inr None
          | Inr (Some v) \<Rightarrow> map_ms M v)
   \<and> mapClosest (mappedString (Mapped M) pieces) t
       = (case mapClosest (mappedString (Raw (value_ms M)) pieces) t of
            Inl e \<Rightarrow> Inl e
          | Inr None \<Rightarrow> Inr None
          | Inr (Some v) \<Rightarrow> mapClosest M v)
   \<and> (\<forall>e. map_ms (mappedString (Raw (value_ms M)) pieces) t \<noteq> Inl e)
   \<and> (\<forall>e. mapClosest (mappedString (Raw (value_ms M)) pieces) t \<noteq> Inl e)"
proof -
  have "originalString (mappedString (Mapped (derive (mappedString (Raw R) pieces0) pss)) pieces) = R"
    by (simp add: mappedString_Mapped derive_originalString mappedString_Raw)
  then show ?thesis
    by (simp add: mappedString_Mapped mappedString_Raw_map_total mappedString_Raw_mapClosest_total)
qed

text \<open>
  The composition at a concrete input: \<open>"cde"\<close> is cut from \<open>"abcdef"\<close>, and \<open>"e-c"\<close>
  is assembled from \<open>"cde"\<close>; the two-step map sends 0 to 4 and 2 to 2, and the literal
  in between is unmapped.
\<close>

theorem mappedString_mapped_composes_witness:
  "originalString (mappedString (Mapped scenario_cde)
      [Rng \<lparr>start = 2, end_r = 3\<rparr>, Lit ''-'', Rng \<lparr>start = 0, end_r = 1\<rparr>]) = ''abcdef''
   \<and> value_ms (mappedString (Mapped scenario_cde)
      [Rng \<lparr>start = 2, end_r = 3\<rparr>, Lit ''-'', Rng \<lparr>start = 0, end_r = 1\<rparr>]) = ''e-c''
   \<and> map (map_ms (mappedString (Mapped scenario_cde)
      [Rng \<lparr>start = 2, end_r = 3\<rparr>, Lit ''-'', Rng \<lparr>start = 0, end_r = 1\<rparr>])) [0, 1, 2]
       = [Inr (Some 4), Inr None, Inr (Some 2)]"
proof -
  let ?ps = "[Rng \<lparr>start = 2, end_r = 3\<rparr>, Lit ''-'', Rng \<lparr>start = 0, end_r = 1\<rparr>]"
  note inst = mappedString_mapped_composes [of scenario_cde ?ps]
  have v: "value_ms scenario_cde = ''cde''" and o: "originalString scenario_cde = ''abcdef''"
    unfolding scenario_cde_def by code_simp+
  have inter: "map (map_ms (mappedString (Raw ''cde'') ?ps)) [0, 1, 2]
                 = [Inr (Some 2), Inr None, Inr (Some 0)]"
    and interv: "value_ms (mappedString (Raw ''cde'') ?ps) = ''e-c''"
    by code_simp+
  have prev: "map_ms scenario_cde 2 = Inr (Some 4)" "map_ms scenario_cde 0 = Inr (Some 2)"
    unfolding scenario_cde_def by code_simp+
  from inst [THEN conjunct1] o
  have "originalString (mappedString (Mapped scenario_cde) ?ps) = ''abcdef''" by simp
  moreover from inst [THEN conjunct2, THEN conjunct2, THEN conjunct1] v interv
  have "value_ms (mappedString (Mapped scenario_cde) ?ps) = ''e-c''" by simp
  moreover from inst [where t = 0, THEN conjunct2, THEN conjunct2, THEN conjunct2, THEN conjunct1]
    inst [where t = 1, THEN conjunct2, THEN conjunct2, THEN conjunct2, THEN conjunct1]
    inst [where t = 2, THEN conjunct2, THEN conjunct2, THEN conjunct2, THEN conjunct1] v inter prev
  have "map (map_ms (mappedString (Mapped scenario_cde) ?ps)) [0, 1, 2]
       = [Inr (Some 4), Inr None, Inr (Some 2)]" by simp
  ultimately show ?thesis by simp
qed

subsection \<open>Copying the full range of a source\<close>

lemma substring_full: "substring s 0 (int (length s)) = s"
  by (simp add: substring_def)

lemma segments_full_range:
  "segments s [Rng \<lparr>start = 0, end_r = int (length s)\<rparr>] =
     [\<lparr>fromSource = True, length_oi = int (length s), offset = 0,
       range_oi = Some \<lparr>start = 0, end_r = int (length s)\<rparr>\<rparr>]"
  by (simp add: segments_def substring_full)

lemma raw_full_range_value:
  "value_ms (mappedString (Raw s) [Rng \<lparr>start = 0, end_r = int (length s)\<rparr>]) = s"
  by (simp add: mappedString_Raw resolve_def substring_full)

lemma raw_full_range_map:
  assumes "0 \<le> t" and "t < int (length s)"
  shows "map_ms (mappedString (Raw s) [Rng \<lparr>start = 0, end_r = int (length s)\<rparr>]) t = Inr (Some t)"
proof -
  let ?segs = "segments s [Rng \<lparr>start = 0, end_r = int (length s)\<rparr>]"
  from assms(1) have cov: "covering ?segs t 0"
    by (simp add: segments_full_range covering_def)
  from assms(2) have "map_base ?segs t = Inr (Some t)"
    by (simp add: map_base_covering [OF cov]) (simp add: segments_full_range)
  then show ?thesis by (simp add: mappedString_Raw)
qed

text \<open>
  C6, as the code has it. Constructing a mapped string from a source \<open>S\<close> with the single
  piece that is the full range of \<open>S\<close> yields the value of \<open>S\<close>; for every valid offset
  \<open>t\<close> its \<open>map(t)\<close> is \<open>t\<close> when \<open>S\<close> is a raw text, and \<open>S.map(t)\<close> when \<open>S\<close> is a
  mapped string: the copy of a mapped string maps to the root text as its source does.
\<close>

theorem full_range_copy:
  "value_ms (mappedString S (full_range S)) = source_value S
   \<and> (\<forall>t. 0 \<le> t \<and> t < int (length (source_value S)) \<longrightarrow>
         map_ms (mappedString S (full_range S)) t
           = (case S of Raw s \<Rightarrow> Inr (Some t) | Mapped M \<Rightarrow> map_ms M t))"
proof (cases S)
  case (Raw s)
  then show ?thesis
    by (simp add: full_range_def source_value_def raw_full_range_value raw_full_range_map)
next
  case (Mapped M)
  then show ?thesis
    by (simp add: full_range_def source_value_def mappedString_Mapped raw_full_range_value
        raw_full_range_map)
qed

theorem full_range_copy_witness:
  "(0::int) \<le> 2 \<and> (2::int) < int (length (source_value (Raw ''abc'')))
   \<and> map_ms (mappedString (Raw ''abc'') (full_range (Raw ''abc''))) 2 = Inr (Some 2)
   \<and> (0::int) \<le> 1 \<and> (1::int) < int (length (source_value (Mapped scenario_cde)))
   \<and> map_ms (mappedString (Mapped scenario_cde) (full_range (Mapped scenario_cde))) 1
       = Inr (Some 3)"
proof -
  have v: "value_ms scenario_cde = ''cde''"
    and m: "map_ms scenario_cde 1 = Inr (Some 3)"
    unfolding scenario_cde_def by code_simp+
  have h1: "(0::int) \<le> 2 \<and> (2::int) < int (length (source_value (Raw ''abc'')))"
    by (simp add: source_value_def)
  have h2: "(0::int) \<le> 1 \<and> (1::int) < int (length (source_value (Mapped scenario_cde)))"
    by (simp add: source_value_def v)
  from full_range_copy [of "Raw ''abc''", THEN conjunct2, rule_format, OF h1]
  have r1: "map_ms (mappedString (Raw ''abc'') (full_range (Raw ''abc''))) 2 = Inr (Some 2)"
    by simp
  from full_range_copy [of "Mapped scenario_cde", THEN conjunct2, rule_format, OF h2] m
  have r2: "map_ms (mappedString (Mapped scenario_cde) (full_range (Mapped scenario_cde))) 1
              = Inr (Some 3)"
    by simp
  from h1 r1 h2 r2 show ?thesis by simp
qed

text \<open>
  The claim as stated (\<open>map(t) = t\<close> for every source) fails for a mapped source:
  \<open>"cde"\<close> cut from \<open>"abcdef"\<close> at 2 and copied in full maps offset 0 to 2.
\<close>

theorem full_range_copy_counterexample:
  "value_ms (mappedString (Mapped scenario_cde) (full_range (Mapped scenario_cde)))
     = source_value (Mapped scenario_cde)
   \<and> (0::int) < int (length (source_value (Mapped scenario_cde)))
   \<and> map_ms (mappedString (Mapped scenario_cde) (full_range (Mapped scenario_cde))) 0
       = Inr (Some 2)
   \<and> map_ms (mappedString (Mapped scenario_cde) (full_range (Mapped scenario_cde))) 0
       \<noteq> Inr (Some 0)"
proof -
  have v: "value_ms scenario_cde = ''cde''"
    unfolding scenario_cde_def by code_simp
  have "map_ms (mappedString (Mapped scenario_cde) (full_range (Mapped scenario_cde))) 0
          = Inr (Some 2)"
    unfolding scenario_cde_def full_range_def source_value_def by code_simp
  moreover have "value_ms (mappedString (Mapped scenario_cde) (full_range (Mapped scenario_cde)))
          = source_value (Mapped scenario_cde)"
    unfolding scenario_cde_def full_range_def source_value_def by code_simp
  ultimately show ?thesis by (simp add: source_value_def v)
qed

subsection \<open>The identity wrapper, and offsets out of range\<close>

lemma map_base_negative:
  assumes "t < 0"
  shows "map_base (segments s pieces) t = Inr None"
proof -
  have "t < offset x" if "x \<in> set (segments s pieces)" for x
  proof -
    from that obtain i where "i < length (segments s pieces)" and "x = segments s pieces ! i"
      by (auto simp: in_set_conv_nth)
    with segments_offset_nonneg [of i s pieces] assms show ?thesis by simp
  qed
  then have "glb offset (segments s pieces) t < 0" by (simp add: glb_neg_iff)
  then show ?thesis by (rule map_base_no_cover)
qed

lemma map_base_past_end:
  assumes "int (length (concat (map (resolve s) pieces))) \<le> t"
  shows "map_base (segments s pieces) t = Inr None"
proof (cases "segments s pieces = []")
  case True
  then show ?thesis by (simp add: map_base_def glb_def)
next
  case False
  let ?segs = "segments s pieces"
  let ?n = "length ?segs - 1"
  from False have n: "?n < length ?segs" by simp
  from False have last: "last ?segs = ?segs ! ?n" by (simp add: last_conv_nth)
  from n have "?n < length pieces" by (simp only: length_segments)
  then have len: "0 \<le> length_oi (?segs ! ?n)" by (simp add: segments_nth)
  from segments_value_length [OF False] assms
  have total: "offset (?segs ! ?n) + length_oi (?segs ! ?n) \<le> t" by (simp add: last)
  have "\<not> (?n < j \<and> j < length ?segs)" for j by linarith
  with total len n have cov: "covering ?segs t ?n" by (simp only: covering_iff) simp
  from total show ?thesis by (simp add: map_base_covering [OF cov])
qed

lemma mappedString_out_of_range:
  assumes "t < 0 \<or> int (length (value_ms (mappedString src pieces))) \<le> t"
  shows "map_ms (mappedString src pieces) t = Inr None"
proof -
  have raw: "map_ms (mappedString (Raw s) pieces) t = Inr None"
    if "t < 0 \<or> int (length (value_ms (mappedString (Raw s) pieces))) \<le> t" for s
    using that by (auto simp: mappedString_Raw map_base_negative map_base_past_end)
  show ?thesis
  proof (cases src)
    case (Raw s)
    with assms raw show ?thesis by simp
  next
    case (Mapped M)
    with assms have "map_ms (mappedString (Raw (value_ms M)) pieces) t = Inr None"
      by (intro raw) (simp add: mappedString_Mapped)
    with Mapped show ?thesis by (simp add: mappedString_Mapped)
  qed
qed

lemma mappedConcat_out_of_range:
  assumes "mappedConcat strings = Inr C" and "t < 0 \<or> int (length (value_ms C)) \<le> t"
  shows "map_ms C t = Inr None" and "mapClosest C t = Inr None"
  using assms(2)
  by (auto simp: mappedConcat_Inr(4) [OF assms(1)] mappedConcat_Inr(5) [OF assms(1)]
      concat_route_def)

text \<open>
  C10. For every text \<open>s\<close> and every integer \<open>x\<close>, negative or past the end of \<open>s\<close>
  included, \<open>asMappedString(s)\<close> has \<open>map(x) = x\<close> and \<open>mapClosest(x) = x\<close>, with
  \<open>value\<close> and \<open>originalString\<close> both \<open>s\<close>: its maps never return "unmapped". The
  \<open>map\<close> of a string built by \<open>mappedString\<close>, and both maps of one built by
  \<open>mappedConcat\<close>, are "unmapped" at every offset outside the value.
\<close>

theorem asMappedString_identity:
  "map_ms (asMappedString s) x = Inr (Some x)
   \<and> mapClosest (asMappedString s) x = Inr (Some x)
   \<and> value_ms (asMappedString s) = s
   \<and> originalString (asMappedString s) = s
   \<and> (\<forall>src pieces. x < 0 \<or> int (length (value_ms (mappedString src pieces))) \<le> x
         \<longrightarrow> map_ms (mappedString src pieces) x = Inr None)
   \<and> (\<forall>strings C. mappedConcat strings = Inr C \<and> (x < 0 \<or> int (length (value_ms C)) \<le> x)
         \<longrightarrow> map_ms C x = Inr None \<and> mapClosest C x = Inr None)"
  using mappedString_out_of_range [of x] mappedConcat_out_of_range [of _ _ x]
  by (simp add: asMappedString_def) blast

theorem asMappedString_identity_witness:
  "map_ms (asMappedString ''abc'') (- 1) = Inr (Some (- 1))
   \<and> mapClosest (asMappedString ''abc'') 7 = Inr (Some 7)
   \<and> int (length (value_ms scenario_abcdef)) \<le> 8
   \<and> map_ms scenario_abcdef 8 = Inr None
   \<and> map_ms scenario_abcdef (- 1) = Inr None"
proof -
  have v: "int (length (value_ms scenario_abcdef)) \<le> 8"
    unfolding scenario_abcdef_def by code_simp
  note out = asMappedString_identity [THEN conjunct2, THEN conjunct2, THEN conjunct2,
      THEN conjunct2, THEN conjunct1, rule_format]
  from v have m8: "map_ms scenario_abcdef 8 = Inr None"
    unfolding scenario_abcdef_def by (intro out) simp
  have m1: "map_ms scenario_abcdef (- 1) = Inr None"
    unfolding scenario_abcdef_def by (intro out) simp
  from asMappedString_identity [of "''abc''" "- 1", THEN conjunct1]
    asMappedString_identity [of "''abc''" 7, THEN conjunct2, THEN conjunct1] v m8 m1
  show ?thesis by simp
qed

subsection \<open>The line-offset index\<close>

lemma filter_upt_Suc:
  "filter P [0..<Suc n] = (if P 0 then [0] else []) @ map Suc (filter (\<lambda>j. P (Suc j)) [0..<n])"
proof -
  have "[0..<Suc n] = 0 # map Suc [0..<n]"
    by (simp only: map_Suc_upt) (simp add: upt_conv_Cons del: upt_Suc)
  then show ?thesis by (simp add: filter_map o_def del: upt_Suc)
qed

lemma matchAll_newlines_eq:
  "matchAll_newlines raw i =
     map (\<lambda>j. i + int j + 1) (filter (\<lambda>j. raw ! j = CHR 0x0A) [0..<length raw])"
proof (induction raw i rule: matchAll_newlines.induct)
  case (1 i)
  show ?case by simp
next
  case (2 c i)
  show ?case by simp
next
  case (3 c d cs i)
  have two: "filter (\<lambda>j. (c # d # cs) ! j = CHR 0x0A) [0..<length (c # d # cs)] =
      (if c = CHR 0x0A then [0] else [])
      @ map Suc (filter (\<lambda>j. (d # cs) ! j = CHR 0x0A) [0..<length (d # cs)])"
    using filter_upt_Suc [of "\<lambda>j. (c # d # cs) ! j = CHR 0x0A" "length (d # cs)"] by simp
  have one: "filter (\<lambda>j. (d # cs) ! j = CHR 0x0A) [0..<length (d # cs)] =
      (if d = CHR 0x0A then [0] else [])
      @ map Suc (filter (\<lambda>j. cs ! j = CHR 0x0A) [0..<length cs])"
    using filter_upt_Suc [of "\<lambda>j. (d # cs) ! j = CHR 0x0A" "length cs"] by simp
  show ?case
  proof (cases "c = CHR 0x0D \<and> d = CHR 0x0A")
    case True
    then have "matchAll_newlines (c # d # cs) i = (2 + i) # matchAll_newlines cs (i + 2)"
      by simp
    also have "matchAll_newlines cs (i + 2)
        = map (\<lambda>j. i + 2 + int j + 1) (filter (\<lambda>j. cs ! j = CHR 0x0A) [0..<length cs])"
      using True by (intro "3.IH"(1)) simp
    finally show ?thesis
      unfolding two one using True by (simp add: o_def add.commute add.left_commute)
  next
    case False
    note notcrlf = this
    show ?thesis
    proof (cases "c = CHR 0x0A")
      case True
      with notcrlf
      have "matchAll_newlines (c # d # cs) i = (1 + i) # matchAll_newlines (d # cs) (i + 1)"
        by simp
      also have "matchAll_newlines (d # cs) (i + 1)
          = map (\<lambda>j. i + 1 + int j + 1)
              (filter (\<lambda>j. (d # cs) ! j = CHR 0x0A) [0..<length (d # cs)])"
        using notcrlf True by (intro "3.IH"(2)) simp_all
      finally show ?thesis
        unfolding two using True by (simp add: o_def add.commute add.left_commute)
    next
      case False
      with notcrlf
      have "matchAll_newlines (c # d # cs) i = matchAll_newlines (d # cs) (i + 1)"
        by auto
      also have "matchAll_newlines (d # cs) (i + 1)
          = map (\<lambda>j. i + 1 + int j + 1)
              (filter (\<lambda>j. (d # cs) ! j = CHR 0x0A) [0..<length (d # cs)])"
        using notcrlf False by (intro "3.IH"(3)) simp_all
      finally show ?thesis
        unfolding two using False by (simp add: o_def add.commute add.left_commute)
    qed
  qed
qed

lemma lineOffsets_eq:
  "lineOffsets raw =
     0 # map (\<lambda>j. int j + 1) (filter (\<lambda>j. raw ! j = CHR 0x0A) [0..<length raw])
     @ [int (length raw)]"
  by (simp add: lineOffsets_def matchAll_newlines_eq)

lemma lineOffsets_sorted: "sorted (lineOffsets raw)"
proof -
  let ?mid = "map (\<lambda>j. int j + 1) (filter (\<lambda>j. raw ! j = CHR 0x0A) [0..<length raw])"
  have "sorted (map (\<lambda>j. int j + 1) [0..<length raw])"
    by (simp add: sorted_map sorted_wrt_iff_nth_less del: upt_Suc)
  then have mid: "sorted ?mid" by (rule sorted_filter)
  have bounds: "0 \<le> x \<and> x \<le> int (length raw)" if "x \<in> set ?mid" for x
    using that by auto
  from mid bounds show ?thesis
    by (simp add: lineOffsets_eq sorted_append)
qed

lemma lineOffsets_first: "lineOffsets raw ! 0 = 0" and lineOffsets_nonempty: "lineOffsets raw \<noteq> []"
  by (simp_all add: lineOffsets_def)

lemma lineNumbers_lookup:
  assumes "0 \<le> t"
  shows "0 \<le> line (lineNumbers raw t)"
    and "line (lineNumbers raw t) < int (length (lineOffsets raw))"
    and "lineOffsets raw ! nat (line (lineNumbers raw t)) \<le> t"
    and "\<forall>j. nat (line (lineNumbers raw t)) < j \<and> j < length (lineOffsets raw)
           \<longrightarrow> t < lineOffsets raw ! j"
    and "column (lineNumbers raw t)
           = Num (t - lineOffsets raw ! nat (line (lineNumbers raw t)))"
proof -
  let ?g = "glb id (lineOffsets raw) t"
  have ln: "line (lineNumbers raw t) = ?g" by (simp add: lineNumbers_def Let_def)
  have "\<not> ?g < 0"
  proof
    assume "?g < 0"
    then have "\<forall>x \<in> set (lineOffsets raw). t < x" by (simp add: glb_neg_iff)
    moreover have "lineOffsets raw ! 0 \<in> set (lineOffsets raw)"
      using lineOffsets_nonempty [of raw] by simp
    ultimately have "t < lineOffsets raw ! 0" by blast
    then show False using assms by (simp add: lineOffsets_first)
  qed
  then have nonneg: "0 \<le> ?g" by simp
  then show "0 \<le> line (lineNumbers raw t)" by (simp add: ln)
  from glb_bounds [of id "lineOffsets raw" t]
  show lt: "line (lineNumbers raw t) < int (length (lineOffsets raw))" by (simp add: ln)
  from glb_key_le [OF nonneg]
  show "lineOffsets raw ! nat (line (lineNumbers raw t)) \<le> t" by (simp add: ln)
  show "\<forall>j. nat (line (lineNumbers raw t)) < j \<and> j < length (lineOffsets raw)
           \<longrightarrow> t < lineOffsets raw ! j"
  proof (intro allI impI)
    fix j
    assume j: "nat (line (lineNumbers raw t)) < j \<and> j < length (lineOffsets raw)"
    then have "nat ?g < j" by (simp add: ln)
    with nonneg have "?g < int j" by linarith
    with j glb_above [of id "lineOffsets raw" t j] show "t < lineOffsets raw ! j" by simp
  qed
  from nonneg lt show "column (lineNumbers raw t)
           = Num (t - lineOffsets raw ! nat (line (lineNumbers raw t)))"
    by (simp add: lineNumbers_def Let_def index_js_def)
qed

text \<open>
  C9. The line-offset index of a raw raw: the table is 0, then the offset after each line
  feed in order (a carriage return before the line feed belongs to the same terminator
  and adds no entry), then the sentinel, the length of the raw; it is ordered. The lookup
  of an offset \<open>t\<close> in \<open>[0, length]\<close> does not fail: the line is a valid index of the
  table, the last one whose line start is at most \<open>t\<close>, and the column is
  \<open>t - lineStart(line)\<close>, not negative.
\<close>

theorem lineNumbers_index:
  "lineOffsets raw =
     0 # map (\<lambda>j. int j + 1) (filter (\<lambda>j. raw ! j = CHR 0x0A) [0..<length raw])
     @ [int (length raw)]
   \<and> sorted (lineOffsets raw)
   \<and> (\<forall>t. 0 \<le> t \<and> t \<le> int (length raw) \<longrightarrow>
         0 \<le> line (lineNumbers raw t)
       \<and> line (lineNumbers raw t) < int (length (lineOffsets raw))
       \<and> lineOffsets raw ! nat (line (lineNumbers raw t)) \<le> t
       \<and> (\<forall>j. nat (line (lineNumbers raw t)) < j \<and> j < length (lineOffsets raw)
              \<longrightarrow> t < lineOffsets raw ! j)
       \<and> column (lineNumbers raw t)
           = Num (t - lineOffsets raw ! nat (line (lineNumbers raw t))))
   \<and> lineOffsets (''ab'' @ [CHR 0x0D, CHR 0x0A] @ ''cd'' @ [CHR 0x0A] @ ''ef'') = [0, 4, 7, 9]
   \<and> lineOffsets (''ab'' @ [CHR 0x0A] @ ''cd'' @ [CHR 0x0A] @ ''ef'') = [0, 3, 6, 8]"
proof -
  have ex1: "lineOffsets (''ab'' @ [CHR 0x0D, CHR 0x0A] @ ''cd'' @ [CHR 0x0A] @ ''ef'') = [0, 4, 7, 9]"
    by (simp add: lineOffsets_def)
  have ex2: "lineOffsets (''ab'' @ [CHR 0x0A] @ ''cd'' @ [CHR 0x0A] @ ''ef'') = [0, 3, 6, 8]"
    by (simp add: lineOffsets_def)
  from lineOffsets_eq [of raw] lineOffsets_sorted [of raw] lineNumbers_lookup [of _ raw] ex1 ex2
  show ?thesis by blast
qed

theorem lineNumbers_index_witness:
  "(0::int) \<le> 5
   \<and> (5::int) \<le> int (length (''ab'' @ [CHR 0x0D, CHR 0x0A] @ ''cd'' @ [CHR 0x0A] @ ''ef''))
   \<and> lineNumbers (''ab'' @ [CHR 0x0D, CHR 0x0A] @ ''cd'' @ [CHR 0x0A] @ ''ef'') 5
       = \<lparr>line = 1, column = Num 1\<rparr>
   \<and> column (lineNumbers (''ab'' @ [CHR 0x0D, CHR 0x0A] @ ''cd'' @ [CHR 0x0A] @ ''ef'') 5)
       = Num (5 - lineOffsets (''ab'' @ [CHR 0x0D, CHR 0x0A] @ ''cd'' @ [CHR 0x0A] @ ''ef'') ! 1)"
proof -
  let ?raw = "''ab'' @ [CHR 0x0D, CHR 0x0A] @ ''cd'' @ [CHR 0x0A] @ ''ef''"
  have h: "(0::int) \<le> 5 \<and> (5::int) \<le> int (length ?raw)" by simp
  have v: "lineNumbers ?raw 5 = \<lparr>line = 1, column = Num 1\<rparr>" by code_simp
  from lineNumbers_index [of ?raw, THEN conjunct2, THEN conjunct2, THEN conjunct1, rule_format, OF h]
  have "column (lineNumbers ?raw 5)
          = Num (5 - lineOffsets ?raw ! nat (line (lineNumbers ?raw 5)))" by simp
  with v have "column (lineNumbers ?raw 5) = Num (5 - lineOffsets ?raw ! 1)" by simp
  with h v show ?thesis by simp
qed

subsection \<open>\<open>mappedConcat\<close> of two mapped strings\<close>

lemma concat_offsets_length: "length (concat_offsets strings c) = length strings"
  by (induction strings arbitrary: c) simp_all

lemma concat_offsets_sorted:
  "0 \<le> c \<Longrightarrow> sorted (concat_offsets strings c) \<and> (\<forall>x \<in> set (concat_offsets strings c). c \<le> x)"
proof (induction strings arbitrary: c)
  case Nil
  then show ?case by simp
next
  case (Cons s strings)
  have "0 \<le> c + int (length (value_ms s))" using Cons.prems by simp
  from Cons.IH [OF this] show ?case by fastforce
qed

text \<open>
  What the code does on two strings \<open>A\<close> (length \<open>a\<close>) and \<open>B\<close> (length \<open>b\<close>): the table
  holds the end offsets \<open>[a, a + b]\<close>, so an offset below \<open>a\<close> finds no entry and the read
  of \<open>strings[-1].map\<close> throws, and an offset from \<open>a\<close> to \<open>a + b\<close> is routed to \<open>A\<close>.
\<close>

lemma mappedConcat_two:
  assumes "mappedConcat [A, B] = Inr C"
  shows "0 \<le> t \<and> t < int (length (value_ms A)) \<longrightarrow>
           map_ms C t = Inl TypeError \<and> mapClosest C t = Inl TypeError"
    and "int (length (value_ms A)) \<le> t \<and> t < int (length (value_ms A)) + int (length (value_ms B))
           \<longrightarrow> map_ms C t = map_ms A (t - int (length (value_ms A)))
             \<and> mapClosest C t = mapClosest A (t - int (length (value_ms A)))"
  using assms
  by (auto simp: mappedConcat_def Let_def concat_route_def glb_def index_js_def)

text \<open>
  C1, at a concrete input. \<open>A = "ab"\<close> and \<open>B = "cd"\<close> are the two halves of the root
  \<open>"abcd"\<close>, and \<open>C = mappedConcat([A, B])\<close> has the value \<open>"abcd"\<close>. The claim gives
  \<open>C.map(0) = A.map(0) = 0\<close> and \<open>C.map(2) = B.map(0) = 2\<close>. The code throws at
  offset 0 and returns \<open>A.map(0) = 0\<close> at offset 2, and likewise for \<open>mapClosest\<close>.
\<close>

theorem mappedConcat_routes_wrong:
  "originalString half_ab = originalString half_cd
   \<and> value_ms half_ab = ''ab'' \<and> value_ms half_cd = ''cd''
   \<and> map_ms half_ab 0 = Inr (Some 0) \<and> map_ms half_cd 0 = Inr (Some 2)
   \<and> mapClosest half_ab 0 = Inr (Some 0) \<and> mapClosest half_cd 0 = Inr (Some 2)
   \<and> (case mappedConcat [half_ab, half_cd] of
         Inl e \<Rightarrow> False
       | Inr C \<Rightarrow>
           value_ms C = ''abcd''
         \<and> map_ms C 0 = Inl TypeError \<and> map_ms C 2 = Inr (Some 0)
         \<and> mapClosest C 0 = Inl TypeError \<and> mapClosest C 2 = Inr (Some 0))"
proof -
  have halves: "originalString half_ab = originalString half_cd"
    "value_ms half_ab = ''ab''" "value_ms half_cd = ''cd''"
    "map_ms half_ab 0 = Inr (Some 0)" "map_ms half_cd 0 = Inr (Some 2)"
    "mapClosest half_ab 0 = Inr (Some 0)" "mapClosest half_cd 0 = Inr (Some 2)"
    unfolding half_ab_def half_cd_def by code_simp+
  have "mappedConcat [half_ab, half_cd] \<noteq> Inl e" for e
    by (simp add: mappedConcat_def Let_def)
  then obtain C where C: "mappedConcat [half_ab, half_cd] = Inr C"
    by (cases "mappedConcat [half_ab, half_cd]") auto
  have "value_ms C = ''abcd''"
    using mappedConcat_Inr(2) [OF C] by (simp add: halves)
  moreover from mappedConcat_two(1) [OF C, of 0]
  have "map_ms C 0 = Inl TypeError \<and> mapClosest C 0 = Inl TypeError"
    by (simp add: halves)
  moreover from mappedConcat_two(2) [OF C, of 2]
  have "map_ms C 2 = Inr (Some 0) \<and> mapClosest C 2 = Inr (Some 0)"
    by (simp add: halves)
  ultimately show ?thesis by (simp add: halves C)
qed

subsection \<open>\<open>mappedLineNumbers\<close>\<close>

lemma concat_route_raises:
  assumes "concat_route method strings offsets val t = Inl e"
  shows "e = TypeError \<or> (\<exists>s \<in> set strings. \<exists>u. method s u = Inl e)"
proof (cases "index_js strings (glb id offsets t)")
  case None
  with assms show ?thesis
    by (auto simp: concat_route_def Let_def split: if_splits)
next
  case (Some s)
  with assms have "method s (t - offsets ! nat (glb id offsets t)) = Inl e"
    by (auto simp: concat_route_def Let_def split: if_splits)
  with index_js_in_set [OF Some] show ?thesis by blast
qed

lemma produced_mapClosest_raises:
  "produced M \<Longrightarrow> mapClosest M t = Inl e \<Longrightarrow> e = TypeError"
proof (induction M arbitrary: t rule: produced.induct)
  case (produced_as str)
  then show ?case by (simp add: asMappedString_def)
next
  case (produced_raw s pieces)
  then show ?case by (simp add: mappedString_Raw_mapClosest_total)
next
  case (produced_mapped M pieces)
  from produced_mapped.prems obtain w where "mapClosest M w = Inl e"
    by (auto simp: mappedString_Mapped mappedString_Raw_mapClosest_total
        split: sum.splits option.splits)
  then show ?case by (rule produced_mapped.IH)
next
  case (produced_concat strings C)
  note C = mappedConcat_Inr [OF produced_concat.hyps]
  from produced_concat.prems
  have "concat_route mapClosest strings (concat_offsets strings 0) (value_ms C) t = Inl e"
    by (simp add: C(5) [symmetric])
  from concat_route_raises [OF this] produced_concat.IH show ?case by blast
qed

lemma literal_segments:
  assumes "k < length (segments s (map Lit lits))"
  shows "\<not> fromSource (segments s (map Lit lits) ! k)"
proof -
  from assms have "k < length (map Lit lits)" by (simp only: length_segments)
  then show ?thesis by (simp add: segments_nth)
qed

lemma literal_raw_unmapped:
  "mapClosest (mappedString (Raw s) (map Lit lits)) t = Inr None"
proof -
  have "mapClosest_base (segments s (map Lit lits)) t = Inr None"
    unfolding mapClosest_base_segments_None_iff using literal_segments by blast
  then show ?thesis by (simp add: mappedString_Raw)
qed

lemma literal_unmapped:
  "mapClosest (mappedString src (map Lit lits)) t = Inr None"
  by (cases src) (simp_all add: literal_raw_unmapped mappedString_Mapped)

lemma lineNumbers_position:
  assumes "0 \<le> n"
  shows "\<exists>l c. lineNumbers raw n = \<lparr>line = l, column = Num c\<rparr>
           \<and> 0 \<le> l \<and> l < int (length (lineOffsets raw))
           \<and> lineOffsets raw ! nat l \<le> n
           \<and> (\<forall>j. nat l < j \<and> j < length (lineOffsets raw) \<longrightarrow> n < lineOffsets raw ! j)
           \<and> c = n - lineOffsets raw ! nat l"
proof -
  let ?r = "lineNumbers raw n"
  note look = lineNumbers_lookup [OF assms, of raw]
  have "?r = \<lparr>line = line ?r, column = Num (n - lineOffsets raw ! nat (line ?r))\<rparr>"
    using look(5) by (cases ?r) simp
  with look(1-4) show ?thesis by blast
qed

text \<open>
  C7, as the code has it. Where \<open>T.mapClosest(t)\<close> returns (does not itself throw), the
  function returned by \<open>mappedLineNumbers(T)\<close> raises exactly when \<open>T.mapClosest(t)\<close> is
  "unmapped", with the error "Internal Error: bad offset in mappedLineNumbers"; for
  the mapped strings that the combinators produce that error is raised exactly when
  \<open>T.mapClosest(t)\<close> is unmapped, and over literal pieces only it is raised for every
  offset. When \<open>T.mapClosest(t)\<close> is an offset \<open>n\<close>, the result is the line index of
  \<open>T.originalString\<close> at \<open>n\<close>, whatever \<open>n\<close> is; for \<open>0 \<le> n \<le> length\<close> that is the
  zero-based line and column of \<open>n\<close> in \<open>T.originalString\<close>: the line is the last entry
  of the line-start table (0, the offset after each line feed, the length) that is at
  most \<open>n\<close>, and the column is \<open>n\<close> minus that line start.
\<close>

theorem mappedLineNumbers_raises_iff_unmapped:
  "(mapClosest T t = Inr None \<longrightarrow>
      mappedLineNumbers T t = Inl (Error ''Internal Error: bad offset in mappedLineNumbers''))
   \<and> (\<forall>n. mapClosest T t = Inr (Some n) \<longrightarrow>
          mappedLineNumbers T t = Inr (lineNumbers (originalString T) n))
   \<and> ((\<forall>e. mapClosest T t \<noteq> Inl e) \<longrightarrow>
        ((\<exists>e. mappedLineNumbers T t = Inl e) \<longleftrightarrow> mapClosest T t = Inr None))
   \<and> (produced T \<longrightarrow>
        (mappedLineNumbers T t = Inl (Error ''Internal Error: bad offset in mappedLineNumbers'')
         \<longleftrightarrow> mapClosest T t = Inr None))
   \<and> (\<forall>src lits. mappedLineNumbers (mappedString src (map Lit lits)) t
         = Inl (Error ''Internal Error: bad offset in mappedLineNumbers''))
   \<and> (\<forall>n. mapClosest T t = Inr (Some n) \<and> 0 \<le> n \<and> n \<le> int (length (originalString T)) \<longrightarrow>
         (\<exists>l c. mappedLineNumbers T t = Inr \<lparr>line = l, column = Num c\<rparr>
            \<and> 0 \<le> l \<and> l < int (length (lineOffsets (originalString T)))
            \<and> lineOffsets (originalString T) ! nat l \<le> n
            \<and> (\<forall>j. nat l < j \<and> j < length (lineOffsets (originalString T))
                   \<longrightarrow> n < lineOffsets (originalString T) ! j)
            \<and> c = n - lineOffsets (originalString T) ! nat l))
   \<and> lineOffsets (originalString T) =
       0 # map (\<lambda>j. int j + 1)
             (filter (\<lambda>j. originalString T ! j = CHR 0x0A) [0..<length (originalString T)])
       @ [int (length (originalString T))]"
proof -
  have unmapped: "mapClosest T t = Inr None \<longrightarrow>
      mappedLineNumbers T t = Inl (Error ''Internal Error: bad offset in mappedLineNumbers'')"
    by (simp add: mappedLineNumbers_def)
  have resolved: "\<forall>n. mapClosest T t = Inr (Some n) \<longrightarrow>
          mappedLineNumbers T t = Inr (lineNumbers (originalString T) n)"
    by (simp add: mappedLineNumbers_def)
  have returns: "(\<forall>e. mapClosest T t \<noteq> Inl e) \<longrightarrow>
        ((\<exists>e. mappedLineNumbers T t = Inl e) \<longleftrightarrow> mapClosest T t = Inr None)"
    by (auto simp: mappedLineNumbers_def split: sum.splits option.splits)
  have prod: "produced T \<longrightarrow>
        (mappedLineNumbers T t = Inl (Error ''Internal Error: bad offset in mappedLineNumbers'')
         \<longleftrightarrow> mapClosest T t = Inr None)"
  proof
    assume p: "produced T"
    show "mappedLineNumbers T t = Inl (Error ''Internal Error: bad offset in mappedLineNumbers'')
         \<longleftrightarrow> mapClosest T t = Inr None"
    proof (cases "mapClosest T t")
      case (Inl e)
      with produced_mapClosest_raises [OF p] have "e = TypeError" by simp
      with Inl show ?thesis by (simp add: mappedLineNumbers_def)
    next
      case (Inr r)
      then show ?thesis by (cases r) (simp_all add: mappedLineNumbers_def)
    qed
  qed
  have lits: "\<forall>src lits. mappedLineNumbers (mappedString src (map Lit lits)) t
         = Inl (Error ''Internal Error: bad offset in mappedLineNumbers'')"
    by (simp add: mappedLineNumbers_def literal_unmapped)
  have position: "\<forall>n. mapClosest T t = Inr (Some n) \<and> 0 \<le> n \<and> n \<le> int (length (originalString T)) \<longrightarrow>
         (\<exists>l c. mappedLineNumbers T t = Inr \<lparr>line = l, column = Num c\<rparr>
            \<and> 0 \<le> l \<and> l < int (length (lineOffsets (originalString T)))
            \<and> lineOffsets (originalString T) ! nat l \<le> n
            \<and> (\<forall>j. nat l < j \<and> j < length (lineOffsets (originalString T))
                   \<longrightarrow> n < lineOffsets (originalString T) ! j)
            \<and> c = n - lineOffsets (originalString T) ! nat l)"
  proof (intro allI impI)
    fix n
    assume h: "mapClosest T t = Inr (Some n) \<and> 0 \<le> n \<and> n \<le> int (length (originalString T))"
    then have m: "mappedLineNumbers T t = Inr (lineNumbers (originalString T) n)"
      by (simp add: mappedLineNumbers_def)
    from h have "0 \<le> n" by simp
    from lineNumbers_position [OF this, of "originalString T"]
    show "\<exists>l c. mappedLineNumbers T t = Inr \<lparr>line = l, column = Num c\<rparr>
            \<and> 0 \<le> l \<and> l < int (length (lineOffsets (originalString T)))
            \<and> lineOffsets (originalString T) ! nat l \<le> n
            \<and> (\<forall>j. nat l < j \<and> j < length (lineOffsets (originalString T))
                   \<longrightarrow> n < lineOffsets (originalString T) ! j)
            \<and> c = n - lineOffsets (originalString T) ! nat l"
      by (simp only: m sum.inject)
  qed
  note table = lineOffsets_eq [of "originalString T"]
  from unmapped resolved returns prod lits position table show ?thesis by blast
qed

lemma three_lines_table:
  "lineOffsets three_lines = [0, 3, 7, 9]" "length three_lines = 9"
  by (simp_all add: three_lines_def lineOffsets_def)

lemma three_lines_position:
  assumes "0 \<le> l" and "l < 4" and "[0, 3, 7, 9] ! nat l \<le> (n::int)"
    and "\<forall>j. nat l < j \<and> j < 4 \<longrightarrow> n < [0, 3, 7, 9] ! j"
    and "7 \<le> n" and "n < 9"
  shows "l = 2"
proof -
  from assms(1,2) have "l = 0 \<or> l = 1 \<or> l = 2 \<or> l = 3" by linarith
  moreover have "l \<noteq> 0" using assms(4) [rule_format, of 1] assms(5) by auto
  moreover have "l \<noteq> 1" using assms(4) [rule_format, of 2] assms(5) by auto
  moreover have "l \<noteq> 3" using assms(3,6) by auto
  ultimately show ?thesis by blast
qed

text \<open>
  On the three-line text: offset 0 of \<open>">>cd-ef"\<close> is in a literal with no source before
  it and raises; offset 6 is the \<open>f\<close>, at offset 8 of the original, line 2, column 1.
\<close>

theorem mappedLineNumbers_raises_iff_unmapped_witness:
  "mapClosest scenario_lines 0 = Inr None
   \<and> mappedLineNumbers scenario_lines 0
       = Inl (Error ''Internal Error: bad offset in mappedLineNumbers'')
   \<and> produced scenario_lines
   \<and> mapClosest scenario_lines 6 = Inr (Some 8)
   \<and> (0::int) \<le> 8 \<and> (8::int) \<le> int (length (originalString scenario_lines))
   \<and> mappedLineNumbers scenario_lines 6 = Inr \<lparr>line = 2, column = Num 1\<rparr>"
proof -
  note inst = mappedLineNumbers_raises_iff_unmapped [of scenario_lines]
  have p: "produced scenario_lines"
    unfolding scenario_lines_def by (rule produced_raw)
  have orig: "originalString scenario_lines = three_lines"
    by (simp add: scenario_lines_def mappedString_Raw)
  have c0: "mapClosest scenario_lines 0 = Inr None"
    and c6: "mapClosest scenario_lines 6 = Inr (Some 8)"
    unfolding scenario_lines_def three_lines_def by code_simp+
  from inst [of 0, THEN conjunct2, THEN conjunct2, THEN conjunct2, THEN conjunct1] p c0
  have r0: "mappedLineNumbers scenario_lines 0
       = Inl (Error ''Internal Error: bad offset in mappedLineNumbers'')" by simp
  have h6: "mapClosest scenario_lines 6 = Inr (Some 8) \<and> (0::int) \<le> 8
            \<and> (8::int) \<le> int (length (originalString scenario_lines))"
    by (simp add: c6 orig three_lines_table)
  from inst [of 6, THEN conjunct2, THEN conjunct2, THEN conjunct2, THEN conjunct2,
      THEN conjunct2, THEN conjunct1, rule_format, OF h6]
  obtain l c where r: "mappedLineNumbers scenario_lines 6 = Inr \<lparr>line = l, column = Num c\<rparr>"
    and l: "0 \<le> l" "l < 4" "[0, 3, 7, 9] ! nat l \<le> (8::int)"
      "\<forall>j. nat l < j \<and> j < 4 \<longrightarrow> (8::int) < [0, 3, 7, 9] ! j"
    and c: "c = 8 - [0, 3, 7, 9] ! nat l"
    unfolding orig three_lines_table by auto
  have "l = 2" by (rule three_lines_position [OF l]) simp_all
  with c have "c = 1" by simp
  with r \<open>l = 2\<close> have r6: "mappedLineNumbers scenario_lines 6 = Inr \<lparr>line = 2, column = Num 1\<rparr>"
    by simp
  from c0 r0 p c6 h6 r6 show ?thesis by simp
qed

text \<open>
  The claim as stated fails at two inputs. Over \<open>"abc"\<close>, the pieces
  \<open>[range(0,0), "xy"]\<close> give \<open>mapClosest(1) = -1\<close> (\<open>range.end - 1\<close> of the empty range),
  and the result is line \<open>-1\<close> with a \<open>NaN\<close> column, not a position in the original text.
  For the concatenation of \<open>"ab"\<close> and \<open>"cd"\<close>, \<open>mapClosest(0)\<close> throws, so the function
  raises although \<open>mapClosest(0)\<close> is not "unmapped".
\<close>

theorem mappedLineNumbers_counterexample:
  "mapClosest scenario_empty_range 1 = Inr (Some (- 1))
   \<and> mappedLineNumbers scenario_empty_range 1 = Inr \<lparr>line = - 1, column = NaN\<rparr>
   \<and> (case mappedConcat [half_ab, half_cd] of
         Inl e \<Rightarrow> False
       | Inr C \<Rightarrow>
           mapClosest C 0 = Inl TypeError
         \<and> mapClosest C 0 \<noteq> Inr None
         \<and> mappedLineNumbers C 0 = Inl TypeError)"
proof -
  have e1: "mapClosest scenario_empty_range 1 = Inr (Some (- 1))"
    unfolding scenario_empty_range_def by code_simp
  have e2: "mappedLineNumbers scenario_empty_range 1 = Inr \<lparr>line = - 1, column = NaN\<rparr>"
    unfolding scenario_empty_range_def by code_simp
  have "mappedConcat [half_ab, half_cd] \<noteq> Inl e" for e
    by (simp add: mappedConcat_def Let_def)
  then obtain C where C: "mappedConcat [half_ab, half_cd] = Inr C"
    by (cases "mappedConcat [half_ab, half_cd]") auto
  have v: "value_ms half_ab = ''ab''"
    unfolding half_ab_def by code_simp
  from mappedConcat_two(1) [OF C, of 0] have t: "mapClosest C 0 = Inl TypeError"
    by (simp add: v)
  then have "mappedLineNumbers C 0 = Inl TypeError" by (simp add: mappedLineNumbers_def)
  with e1 e2 t show ?thesis by (simp add: C)
qed

subsection \<open>Claims on \<open>mappedConcat\<close> of nothing and on \<open>asMappedString\<close>\<close>

text \<open>
  C8. \<open>mappedConcat\<close> applied to an empty list raises an error (the \<open>Error\<close> with the
  message "strings must be non-empty") and returns no mapped string.
\<close>

theorem mappedConcat_empty_raises:
  "mappedConcat [] = Inl (Error ''strings must be non-empty'')
   \<and> (\<forall>C. mappedConcat [] \<noteq> Inr C)"
  by (simp add: mappedConcat_def)

end
